theory Spec2Isabelle
  imports Main "HOL-Library.AList"
begin

section \<open>Python values used by the engine\<close>

text \<open>
  The exceptions the engine can raise: \<open>WrongMove\<close> is the program's own, the others are
  the built-in exceptions of list indexing, dictionary lookup, tuple unpacking of
  \<open>None\<close>, \<open>int()\<close> and \<open>assert\<close>.
\<close>

datatype error = WrongMove | ValueError | IndexError | KeyError | TypeError | AssertionError

type_synonym pos = "int \<times> int"
type_synonym piece = "int \<times> int"
type_synonym move = "pos \<times> pos"
type_synonym pdict = "(int \<times> pos) list"

text \<open>
  Python list indexing: a negative index counts from the end, anything outside
  \<open>-n .. n-1\<close> raises \<open>IndexError\<close>.
\<close>

definition py_norm :: "nat \<Rightarrow> int \<Rightarrow> nat option" where
  "py_norm n i =
     (let j = (if i < 0 then int n + i else i)
      in if 0 \<le> j \<and> j < int n then Some (nat j) else None)"

definition py_index :: "'a list \<Rightarrow> int \<Rightarrow> error + 'a" where
  "py_index xs i = (case py_norm (length xs) i of None \<Rightarrow> Inl IndexError | Some j \<Rightarrow> Inr (xs ! j))"

definition py_setitem :: "'a list \<Rightarrow> int \<Rightarrow> 'a \<Rightarrow> error + 'a list" where
  "py_setitem xs i v =
     (case py_norm (length xs) i of None \<Rightarrow> Inl IndexError | Some j \<Rightarrow> Inr (xs[j := v]))"

text \<open>
  A dictionary is an association list in insertion order: \<open>d[k] = v\<close> overwrites in
  place or appends (\<open>AList.update\<close>), \<open>del d[k]\<close> raises \<open>KeyError\<close> on a missing key.
\<close>

definition dict_has :: "pdict \<Rightarrow> int \<Rightarrow> bool" where
  "dict_has d k = (map_of d k \<noteq> None)"

definition dict_del :: "pdict \<Rightarrow> int \<Rightarrow> error + pdict" where
  "dict_del d k = (if dict_has d k then Inr (AList.delete k d) else Inl KeyError)"

text \<open>
  The search values: Python integers together with the two float infinities
  \<open>inf\<close> and \<open>-inf\<close>; \<open>val_less\<close> is Python's \<open><\<close> on them, \<open>val_le\<close> its \<open><=\<close>.
\<close>

datatype val = NegInf | Fin int | PosInf

fun val_less :: "val \<Rightarrow> val \<Rightarrow> bool" where
  "val_less NegInf NegInf = False"
| "val_less NegInf v = True"
| "val_less (Fin a) (Fin b) = (a < b)"
| "val_less (Fin a) PosInf = True"
| "val_less (Fin a) NegInf = False"
| "val_less PosInf v = False"

definition val_le :: "val \<Rightarrow> val \<Rightarrow> bool" where
  "val_le a b = (val_less a b \<or> a = b)"

section \<open>Terrain and pieces (class Jungle, static data)\<close>

definition MAXIMAL_PASSIVE :: int where "MAXIMAL_PASSIVE = 30"
definition MX :: int where "MX = 7"
definition MY :: int where "MY = 9"
definition MAX_DEPTH :: int where "MAX_DEPTH = 3"
definition LICZ_ROZGR :: nat where "LICZ_ROZGR = 4"

text \<open>The heuristic weights, \<open>A\<close> and \<open>B\<close> in the source.\<close>

definition weight_A :: int where "weight_A = 1"
definition weight_B :: int where "weight_B = 1"

definition PIECE_VALUES :: "(int \<times> int) list" where
  "PIECE_VALUES = [(0, 4), (1, 1), (2, 2), (3, 3), (4, 5), (5, 7), (6, 8), (7, 10)]"

definition traps :: "pos list" where
  "traps = [(2, 0), (4, 0), (3, 1), (2, 8), (4, 8), (3, 7)]"

definition ponds :: "pos list" where
  "ponds = concat (map (\<lambda>x. map (\<lambda>y. (x, y)) [3, 4, 5]) [1, 2, 4, 5])"

definition dens :: "pos list" where
  "dens = [(3, 8), (3, 0)]"

definition dirs :: "(int \<times> int) list" where
  "dirs = [(0, 1), (1, 0), (-1, 0), (0, -1)]"

definition rat :: int where "rat = 0"
definition cat :: int where "cat = 1"
definition dog :: int where "dog = 2"
definition wolf :: int where "wolf = 3"
definition jaguar :: int where "jaguar = 4"
definition tiger :: int where "tiger = 5"
definition lion :: int where "lion = 6"
definition elephant :: int where "elephant = 7"

lemmas rank_defs = rat_def cat_def dog_def wolf_def jaguar_def tiger_def lion_def elephant_def

section \<open>The game state\<close>

text \<open>
  \<open>board\<close> is the list of 9 rows of 7 cells (\<open>board[y][x]\<close>), \<open>pieces\<close> the pair of the
  two dictionaries \<open>pieces[0]\<close> and \<open>pieces[1]\<close> from rank to position.
\<close>

record jungle =
  board :: "piece option list list"
  pieces :: "pdict \<times> pdict"
  curplayer :: int
  peace_counter :: int
  winner :: "int option"

definition pdict_of :: "jungle \<Rightarrow> int \<Rightarrow> pdict" where
  "pdict_of s pl = (if pl = 0 then fst (pieces s) else snd (pieces s))"

definition pieces_get :: "jungle \<Rightarrow> int \<Rightarrow> error + pdict" where
  "pieces_get s pl = (if pl = 0 \<or> pl = 1 then Inr (pdict_of s pl) else Inl KeyError)"

definition pieces_put :: "jungle \<Rightarrow> int \<Rightarrow> pdict \<Rightarrow> jungle" where
  "pieces_put s pl d =
     (if pl = 0 then s\<lparr>pieces := (d, snd (pieces s))\<rparr> else s\<lparr>pieces := (fst (pieces s), d)\<rparr>)"

text \<open>\<open>del self.pieces[pl][pc]\<close> and \<open>self.pieces[pl][pc] = v\<close>.\<close>

definition pieces_del :: "jungle \<Rightarrow> int \<Rightarrow> int \<Rightarrow> error + jungle" where
  "pieces_del s pl pc =
     (case pieces_get s pl of Inl e \<Rightarrow> Inl e
      | Inr d \<Rightarrow> (case dict_del d pc of Inl e \<Rightarrow> Inl e | Inr d' \<Rightarrow> Inr (pieces_put s pl d')))"

definition pieces_set :: "jungle \<Rightarrow> int \<Rightarrow> int \<Rightarrow> pos \<Rightarrow> error + jungle" where
  "pieces_set s pl pc v =
     (case pieces_get s pl of Inl e \<Rightarrow> Inl e
      | Inr d \<Rightarrow> Inr (pieces_put s pl (AList.update pc v d)))"

text \<open>\<open>self.board[y][x]\<close> and \<open>self.board[y][x] = v\<close> (the rows are separate lists).\<close>

definition board_get :: "piece option list list \<Rightarrow> int \<Rightarrow> int \<Rightarrow> error + piece option" where
  "board_get b x y = (case py_index b y of Inl e \<Rightarrow> Inl e | Inr row \<Rightarrow> py_index row x)"

definition board_set ::
  "piece option list list \<Rightarrow> int \<Rightarrow> int \<Rightarrow> piece option \<Rightarrow> error + piece option list list" where
  "board_set b x y v =
     (case py_index b y of Inl e \<Rightarrow> Inl e
      | Inr row \<Rightarrow> (case py_setitem row x v of Inl e \<Rightarrow> Inl e | Inr row' \<Rightarrow> py_setitem b y row'))"

text \<open>
  \<open>initial_board\<close>: the nine rows of the picture, upper case for player 1, and
  \<open>__init__\<close>, which fills the dictionaries scanning the rows top to bottom.
\<close>

definition initial_board :: "piece option list list" where
  "initial_board =
    [[Some (1, 6), None, None, None, None, None, Some (1, 5)],
     [None, Some (1, 2), None, None, None, Some (1, 1), None],
     [Some (1, 0), None, Some (1, 4), None, Some (1, 3), None, Some (1, 7)],
     [None, None, None, None, None, None, None],
     [None, None, None, None, None, None, None],
     [None, None, None, None, None, None, None],
     [Some (0, 7), None, Some (0, 3), None, Some (0, 4), None, Some (0, 0)],
     [None, Some (0, 1), None, None, None, Some (0, 2), None],
     [Some (0, 5), None, None, None, None, None, Some (0, 6)]]"

fun scan_row :: "piece option list \<Rightarrow> int \<Rightarrow> int \<Rightarrow> pdict \<times> pdict \<Rightarrow> pdict \<times> pdict" where
  "scan_row [] x y ps = ps"
| "scan_row (None # cs) x y ps = scan_row cs (x + 1) y ps"
| "scan_row (Some (pl, pc) # cs) x y ps =
     scan_row cs (x + 1) y
       (if pl = 0 then (AList.update pc (x, y) (fst ps), snd ps)
        else (fst ps, AList.update pc (x, y) (snd ps)))"

fun scan_rows :: "piece option list list \<Rightarrow> int \<Rightarrow> pdict \<times> pdict \<Rightarrow> pdict \<times> pdict" where
  "scan_rows [] y ps = ps"
| "scan_rows (r # rs) y ps = scan_rows rs (y + 1) (scan_row r 0 y ps)"

text \<open>
  \<open>__init__\<close> for a given picture of the board whose pieces belong to players 0 and 1;
  \<open>init\<close> is the start of a game.
\<close>

definition jungle_of :: "piece option list list \<Rightarrow> jungle" where
  "jungle_of b = \<lparr>board = b, pieces = scan_rows b 0 ([], []),
                  curplayer = 0, peace_counter = 0, winner = None\<rparr>"

definition init :: jungle where
  "init = jungle_of initial_board"

section \<open>Capture precedence, rank comparison, the river block\<close>

definition can_beat :: "int \<Rightarrow> int \<Rightarrow> pos \<Rightarrow> pos \<Rightarrow> bool" where
  "can_beat p1 p2 pos1 pos2 =
     (if pos1 \<in> set ponds \<and> pos2 \<in> set ponds then True
      else if pos1 \<in> set ponds then False
      else if p1 = rat \<and> p2 = elephant then True
      else if p1 = elephant \<and> p2 = rat then False
      else if p1 \<ge> p2 then True
      else if pos2 \<in> set traps then True
      else False)"

text \<open>
  \<open>pieces_comparison\<close>: for each rank from 7 down to 0 the list \<open>ps\<close> of the players
  holding it; the first rank whose list has one element decides.
\<close>

fun pieces_comparison_loop :: "jungle \<Rightarrow> int list \<Rightarrow> int option" where
  "pieces_comparison_loop s [] = None"
| "pieces_comparison_loop s (i # is) =
     (let ps = filter (\<lambda>p. dict_has (pdict_of s p) i) [0, 1]
      in if length ps = 1 then Some (hd ps) else pieces_comparison_loop s is)"

definition pieces_comparison :: "jungle \<Rightarrow> int option" where
  "pieces_comparison s = pieces_comparison_loop s [7, 6, 5, 4, 3, 2, 1, 0]"

text \<open>
  \<open>rat_is_blocking\<close>: the loop runs over \<open>player\<close> in \<open>[0, 1]\<close> and looks at the rat of
  \<open>1 - player\<close>; the first argument is not used (\<open>player_unused\<close> in the source).
\<close>

fun rat_is_blocking_loop :: "jungle \<Rightarrow> pos \<Rightarrow> int \<Rightarrow> int \<Rightarrow> int list \<Rightarrow> bool" where
  "rat_is_blocking_loop s pos dx dy [] = False"
| "rat_is_blocking_loop s pos dx dy (player # rest) =
     (let x = fst pos; y = snd pos; nx = x + dx in
      case map_of (pdict_of s (1 - player)) rat of
        None \<Rightarrow> rat_is_blocking_loop s pos dx dy rest
      | Some (rx, ry) \<Rightarrow>
          if (rx, ry) \<notin> set ponds then rat_is_blocking_loop s pos dx dy rest
          else if dy \<noteq> 0 \<and> x = rx then True
          else if dx \<noteq> 0 \<and> (y = ry \<and> \<bar>x - rx\<bar> \<le> 2 \<and> \<bar>nx - rx\<bar> \<le> 2) then True
          else rat_is_blocking_loop s pos dx dy rest)"

definition rat_is_blocking :: "jungle \<Rightarrow> int \<Rightarrow> pos \<Rightarrow> int \<Rightarrow> int \<Rightarrow> bool" where
  "rat_is_blocking s player_unused pos dx dy = rat_is_blocking_loop s pos dx dy [0, 1]"

section \<open>Move generation\<close>

text \<open>
  \<open>collect\<close> runs a loop body over a list and appends what each iteration adds to
  \<open>res\<close>; an exception in an iteration ends the loop.
\<close>

fun collect :: "('a \<Rightarrow> error + 'b list) \<Rightarrow> 'a list \<Rightarrow> error + 'b list" where
  "collect f [] = Inr []"
| "collect f (x # xs) =
     (case f x of Inl e \<Rightarrow> Inl e
      | Inr ys \<Rightarrow> (case collect f xs of Inl e \<Rightarrow> Inl e | Inr zs \<Rightarrow> Inr (ys @ zs)))"

text \<open>
  The tail of the loop body of \<open>moves\<close>, from \<open>if self.board[ny][nx] is not None\<close> on:
  the destination \<open>pos2\<close> is read from the board without a range check.
\<close>

definition move_target :: "jungle \<Rightarrow> int \<Rightarrow> int \<Rightarrow> pos \<Rightarrow> pos \<Rightarrow> error + move list" where
  "move_target s player p pos pos2 =
     (case board_get (board s) (fst pos2) (snd pos2) of
        Inl e \<Rightarrow> Inl e
      | Inr None \<Rightarrow> Inr [(pos, pos2)]
      | Inr (Some (pl2, piece2)) \<Rightarrow>
          if pl2 = player then Inr []
          else if \<not> can_beat p piece2 pos pos2 then Inr []
          else Inr [(pos, pos2)])"

text \<open>One iteration of the inner loop of \<open>moves\<close>: piece \<open>p\<close> at \<open>pos\<close>, direction \<open>(dx, dy)\<close>.\<close>

definition move_in_dir :: "jungle \<Rightarrow> int \<Rightarrow> int \<Rightarrow> pos \<Rightarrow> int \<times> int \<Rightarrow> error + move list" where
  "move_in_dir s player p pos d =
     (let x = fst pos; y = snd pos; dx = fst d; dy = snd d; nx = x + dx; ny = y + dy in
      if 0 \<le> nx \<and> nx < MX \<and> 0 \<le> ny \<and> ny < MY then
        (case py_index dens player of
           Inl e \<Rightarrow> Inl e
         | Inr den \<Rightarrow>
             if den = (nx, ny) then Inr []
             else if (nx, ny) \<in> set ponds then
               (if p \<notin> {rat, tiger, lion} then Inr []
                else if p = tiger \<or> p = lion then
                  (let dx3 = (if dx \<noteq> 0 then dx * 3 else dx);
                       dy4 = (if dy \<noteq> 0 then dy * 4 else dy)
                   in if rat_is_blocking s player pos dx3 dy4 then Inr []
                      else move_target s player p pos (x + dx3, y + dy4))
                else move_target s player p pos (nx, ny))
             else move_target s player p pos (nx, ny))
      else Inr [])"

definition moves :: "jungle \<Rightarrow> int \<Rightarrow> error + move list" where
  "moves s player =
     (case pieces_get s player of
        Inl e \<Rightarrow> Inl e
      | Inr d \<Rightarrow> collect (\<lambda>(p, pos). collect (move_in_dir s player p pos) dirs) d)"

section \<open>Termination test and real moves\<close>

text \<open>
  \<open>victory\<close> returns the truth value and the state with \<open>winner\<close> set. Its second
  parameter \<open>mes\<close> is only used inside a string literal and is left out.
\<close>

definition victory :: "jungle \<Rightarrow> int \<Rightarrow> error + (bool \<times> jungle)" where
  "victory s player =
     (let oponent = 1 - player in
      case pieces_get s oponent of
        Inl e \<Rightarrow> Inl e
      | Inr d \<Rightarrow>
          if length d = 0 then Inr (True, s\<lparr>winner := Some player\<rparr>)
          else
            (case py_index dens oponent of
               Inl e \<Rightarrow> Inl e
             | Inr (x, y) \<Rightarrow>
                 (case board_get (board s) x y of
                    Inl e \<Rightarrow> Inl e
                  | Inr c \<Rightarrow>
                      if c \<noteq> None then Inr (True, s\<lparr>winner := Some player\<rparr>)
                      else if peace_counter s \<ge> MAXIMAL_PASSIVE then
                        (case pieces_comparison s of
                           None \<Rightarrow> Inr (True, s\<lparr>winner := Some 0\<rparr>)
                         | Some r \<Rightarrow> Inr (True, s\<lparr>winner := Some r\<rparr>))
                      else Inr (False, s))))"

text \<open>
  The part of \<open>do_move\<close> after the turn flip, which the search repeats inline: read the
  mover, take the piece on the destination if there is one, move the mover in both views.
  It returns the new state and the captured piece, if any.
\<close>

definition shift_piece :: "jungle \<Rightarrow> move \<Rightarrow> error + (jungle \<times> piece \<times> piece option)" where
  "shift_piece s m =
     (let x = fst (fst m); y = snd (fst m); x2 = fst (snd m); y2 = snd (snd m) in
      case board_get (board s) x y of
        Inl e \<Rightarrow> Inl e
      | Inr None \<Rightarrow> Inl TypeError
      | Inr (Some (pl, pc)) \<Rightarrow>
          (case board_get (board s) x2 y2 of
             Inl e \<Rightarrow> Inl e
           | Inr t \<Rightarrow>
               (case (case t of
                        Some (pl2, pc2) \<Rightarrow>
                          (case pieces_del s pl2 pc2 of
                             Inl e \<Rightarrow> Inl e
                           | Inr s1 \<Rightarrow> Inr (s1\<lparr>peace_counter := 0\<rparr>))
                      | None \<Rightarrow> Inr (s\<lparr>peace_counter := peace_counter s + 1\<rparr>)) of
                  Inl e \<Rightarrow> Inl e
                | Inr s2 \<Rightarrow>
                    (case pieces_set s2 pl pc (x2, y2) of
                       Inl e \<Rightarrow> Inl e
                     | Inr s3 \<Rightarrow>
                         (case board_set (board s3) x2 y2 (Some (pl, pc)) of
                            Inl e \<Rightarrow> Inl e
                          | Inr b4 \<Rightarrow>
                              (case board_set b4 x y None of
                                 Inl e \<Rightarrow> Inl e
                               | Inr b5 \<Rightarrow> Inr (s3\<lparr>board := b5\<rparr>, (pl, pc), t)))))))"

definition do_move :: "jungle \<Rightarrow> move option \<Rightarrow> error + jungle" where
  "do_move s m =
     (let s1 = s\<lparr>curplayer := 1 - curplayer s\<rparr> in
      case m of
        None \<Rightarrow> Inr s1
      | Some mv \<Rightarrow> (case shift_piece s1 mv of Inl e \<Rightarrow> Inl e | Inr (s2, _) \<Rightarrow> Inr s2))"

section \<open>Heuristic and terminal utility\<close>

definition piece_value :: "int \<Rightarrow> int" where
  "piece_value i = (case map_of PIECE_VALUES i of Some v \<Rightarrow> v | None \<Rightarrow> 0)"

text \<open>The material of a player: the loop of \<open>heur\<close> over the ranks 7 down to 0.\<close>

definition material :: "jungle \<Rightarrow> int \<Rightarrow> int" where
  "material s pl =
     sum_list (map (\<lambda>i. if dict_has (pdict_of s pl) i then piece_value i else 0)
                   [7, 6, 5, 4, 3, 2, 1, 0])"

definition heur :: "jungle \<Rightarrow> error + int" where
  "heur s =
     (let licz_1 = material s 1; licz_2 = material s 0 in
      case moves s 1 of
        Inl e \<Rightarrow> Inl e
      | Inr m1 \<Rightarrow>
          (case moves s 0 of
             Inl e \<Rightarrow> Inl e
           | Inr m0 \<Rightarrow>
               Inr (weight_A * (licz_1 - licz_2) + weight_B * (int (length m1) - int (length m0)))))"

type_synonym result = "val \<times> int option \<times> int option \<times> int option \<times> int option"

text \<open>Python compares a truth value with a number as 1 or 0.\<close>

definition bool_int :: "bool \<Rightarrow> int" where
  "bool_int b = (if b then 1 else 0)"

text \<open>
  \<open>utility\<close> calls \<open>victory\<close> up to three times and compares its truth value with 0;
  when no branch is taken the Python function returns \<open>None\<close>.
\<close>

definition utility :: "jungle \<Rightarrow> int \<Rightarrow> error + (result option \<times> jungle)" where
  "utility s p =
     (case victory s p of
        Inl e \<Rightarrow> Inl e
      | Inr (t1, s1) \<Rightarrow>
          if bool_int t1 < 0 then Inr (Some (PosInf, Some 0, Some 0, Some 0, Some 0), s1)
          else
            (case victory s1 p of
               Inl e \<Rightarrow> Inl e
             | Inr (t2, s2) \<Rightarrow>
                 if bool_int t2 = 0 then Inr (Some (Fin 0, Some 0, Some 0, Some 0, Some 0), s2)
                 else
                   (case victory s2 p of
                      Inl e \<Rightarrow> Inl e
                    | Inr (t3, s3) \<Rightarrow>
                        if bool_int t3 > 0
                        then Inr (Some (NegInf, Some 0, Some 0, Some 0, Some 0), s3)
                        else Inr (None, s3))))"

definition cut_off_tests :: "int \<Rightarrow> bool" where
  "cut_off_tests depth = (if depth > MAX_DEPTH then True else False)"

section \<open>The search: make, recurse, unmake\<close>

text \<open>
  What the block between \<open># affect\<close> and \<open># end of affect\<close> leaves in local variables
  for the undo: the move \<open>(a, b), (c, d)\<close>, the mover \<open>(pl, pc)\<close>, the taken piece
  \<open>(pl2, pc2)\<close> (\<open>0, 0\<close> when nothing is taken), the old counter \<open>p_c\<close> and the flag
  \<open>zbicie\<close>.
\<close>

record saved =
  sv_from :: pos
  sv_to :: pos
  sv_mover :: piece
  sv_taken :: piece
  sv_p_c :: int
  sv_zbicie :: int

definition affect :: "jungle \<Rightarrow> move \<Rightarrow> error + (jungle \<times> saved)" where
  "affect s m =
     (case shift_piece s m of
        Inl e \<Rightarrow> Inl e
      | Inr (s1, mover, t) \<Rightarrow>
          Inr (s1, \<lparr>sv_from = fst m, sv_to = snd m, sv_mover = mover,
                    sv_taken = (case t of None \<Rightarrow> (0, 0) | Some q \<Rightarrow> q),
                    sv_p_c = peace_counter s,
                    sv_zbicie = (case t of None \<Rightarrow> 0 | Some q \<Rightarrow> 1)\<rparr>))"

text \<open>The block between \<open># undo everything\<close> and \<open># end of undo\<close>.\<close>

definition undo_everything :: "jungle \<Rightarrow> saved \<Rightarrow> error + jungle" where
  "undo_everything s u =
     (let a = fst (sv_from u); b = snd (sv_from u); c = fst (sv_to u); d = snd (sv_to u);
          pl = fst (sv_mover u); pc = snd (sv_mover u);
          pl2 = fst (sv_taken u); pc2 = snd (sv_taken u) in
      if sv_zbicie u = 1 then
        (case pieces_set s pl2 pc2 (c, d) of
           Inl e \<Rightarrow> Inl e
         | Inr s1 \<Rightarrow>
             (let s2 = s1\<lparr>peace_counter := sv_p_c u\<rparr> in
              case board_set (board s2) a b (Some (pl, pc)) of
                Inl e \<Rightarrow> Inl e
              | Inr b3 \<Rightarrow>
                  (case board_set b3 c d (Some (pl2, pc2)) of
                     Inl e \<Rightarrow> Inl e
                   | Inr b4 \<Rightarrow> pieces_set (s2\<lparr>board := b4\<rparr>) pl pc (a, b))))
      else
        (let s1 = s\<lparr>peace_counter := peace_counter s - 1\<rparr> in
         case board_set (board s1) a b (Some (pl, pc)) of
           Inl e \<Rightarrow> Inl e
         | Inr b2 \<Rightarrow>
             (case board_set b2 c d None of
                Inl e \<Rightarrow> Inl e
              | Inr b3 \<Rightarrow> pieces_set (s1\<lparr>board := b3\<rparr>) pl pc (a, b))))"

definition no_coords :: "int option \<times> int option \<times> int option \<times> int option" where
  "no_coords = (None, None, None, None)"

definition move_coords :: "move \<Rightarrow> int option \<times> int option \<times> int option \<times> int option" where
  "move_coords m = (Some (fst (fst m)), Some (snd (fst m)), Some (fst (snd m)), Some (snd (snd m)))"

text \<open>
  \<open>max_alpha_beta\<close> and \<open>min_alpha_beta\<close>, each with its \<open>for\<close> loop as a function of the
  moves still to try and of the loop's variables. The game object is threaded through:
  every function returns the state it leaves behind. The list \<open>mov\<close> is compared with
  \<open>[None]\<close> as in the source; its elements are the moves of \<open>moves\<close>, so they are kept as
  \<open>Some m\<close>. The parameter \<open>start\<close> is never read and is left out. A \<open>None\<close> from
  \<open>utility\<close> would fail where the caller unpacks the tuple.
\<close>

function max_alpha_beta :: "jungle \<Rightarrow> val \<Rightarrow> val \<Rightarrow> int \<Rightarrow> error + (result \<times> jungle)"
  and max_loop ::
    "jungle \<Rightarrow> move option list \<Rightarrow> val \<Rightarrow> val \<Rightarrow> int \<Rightarrow> val
       \<Rightarrow> int option \<times> int option \<times> int option \<times> int option \<Rightarrow> error + (result \<times> jungle)"
  and min_alpha_beta :: "jungle \<Rightarrow> val \<Rightarrow> val \<Rightarrow> int \<Rightarrow> error + (result \<times> jungle)"
  and min_loop ::
    "jungle \<Rightarrow> move option list \<Rightarrow> val \<Rightarrow> val \<Rightarrow> int \<Rightarrow> val
       \<Rightarrow> int option \<times> int option \<times> int option \<times> int option \<Rightarrow> error + (result \<times> jungle)"
where
  "max_alpha_beta s alpha beta depth =
     (case moves s 0 of
        Inl e \<Rightarrow> Inl e
      | Inr ms \<Rightarrow>
          (case victory s 0 of
             Inl e \<Rightarrow> Inl e
           | Inr (t, s1) \<Rightarrow>
               if t then
                 (case utility s1 0 of
                    Inl e \<Rightarrow> Inl e
                  | Inr (None, s2) \<Rightarrow> Inl TypeError
                  | Inr (Some r, s2) \<Rightarrow> Inr (r, s2))
               else if cut_off_tests depth then
                 (case heur s1 of
                    Inl e \<Rightarrow> Inl e
                  | Inr h \<Rightarrow> Inr ((Fin h, Some 0, Some 0, Some 0, Some 0), s1))
               else if map Some ms \<noteq> [None] then
                 max_loop s1 (map Some ms) alpha beta depth NegInf no_coords
               else
                 (case min_alpha_beta s1 alpha beta (depth + 1) of
                    Inl e \<Rightarrow> Inl e
                  | Inr (r, s2) \<Rightarrow>
                      Inr ((if val_less NegInf (fst r) then fst r else NegInf, no_coords), s2))))"
| "max_loop s [] alpha beta depth best px = Inr ((best, px), s)"
| "max_loop s (it # rest) alpha beta depth best px =
     (case it of
        None \<Rightarrow> Inl TypeError
      | Some mv \<Rightarrow>
          (case affect s mv of
             Inl e \<Rightarrow> Inl e
           | Inr (s1, u) \<Rightarrow>
               (case min_alpha_beta s1 alpha beta (depth + 1) of
                  Inl e \<Rightarrow> Inl e
                | Inr (r, s2) \<Rightarrow>
                    (let best1 = (if val_less best (fst r) then fst r else best);
                         px1 = (if val_less best (fst r) then move_coords mv else px) in
                     case undo_everything s2 u of
                       Inl e \<Rightarrow> Inl e
                     | Inr s3 \<Rightarrow>
                         if val_le beta best1 then Inr ((best1, px1), s3)
                         else max_loop s3 rest (if val_less alpha best1 then best1 else alpha)
                                beta depth best1 px1))))"
| "min_alpha_beta s alpha beta depth =
     (case moves s 1 of
        Inl e \<Rightarrow> Inl e
      | Inr ms \<Rightarrow>
          (case victory s 1 of
             Inl e \<Rightarrow> Inl e
           | Inr (t, s1) \<Rightarrow>
               if t then
                 (case utility s1 1 of
                    Inl e \<Rightarrow> Inl e
                  | Inr (None, s2) \<Rightarrow> Inl TypeError
                  | Inr (Some r, s2) \<Rightarrow> Inr (r, s2))
               else if cut_off_tests depth then
                 (case heur s1 of
                    Inl e \<Rightarrow> Inl e
                  | Inr h \<Rightarrow> Inr ((Fin h, Some 0, Some 0, Some 0, Some 0), s1))
               else if map Some ms \<noteq> [None] then
                 min_loop s1 (map Some ms) alpha beta depth PosInf no_coords
               else
                 (case max_alpha_beta s1 alpha beta (depth + 1) of
                    Inl e \<Rightarrow> Inl e
                  | Inr (r, s2) \<Rightarrow>
                      Inr ((if val_less (fst r) PosInf then fst r else PosInf, no_coords), s2))))"
| "min_loop s [] alpha beta depth best qx = Inr ((best, qx), s)"
| "min_loop s (it # rest) alpha beta depth best qx =
     (case it of
        None \<Rightarrow> Inl TypeError
      | Some mv \<Rightarrow>
          (case affect s mv of
             Inl e \<Rightarrow> Inl e
           | Inr (s1, u) \<Rightarrow>
               (case max_alpha_beta s1 alpha beta (depth + 1) of
                  Inl e \<Rightarrow> Inl e
                | Inr (r, s2) \<Rightarrow>
                    (let best1 = (if val_less (fst r) best then fst r else best);
                         qx1 = (if val_less (fst r) best then move_coords mv else qx) in
                     case undo_everything s2 u of
                       Inl e \<Rightarrow> Inl e
                     | Inr s3 \<Rightarrow>
                         if val_le best1 alpha then Inr ((best1, qx1), s3)
                         else min_loop s3 rest alpha (if val_less best1 beta then best1 else beta)
                                depth best1 qx1))))"
  by pat_completeness auto

termination max_alpha_beta
  apply (relation "measures [
     (\<lambda>x. case x of
        Inl (Inl (s, al, be, d)) \<Rightarrow> 2 * nat (4 - d)
      | Inl (Inr (s, ms, al, be, d, b, px)) \<Rightarrow> 2 * nat (4 - (d + 1)) + 1
      | Inr (Inl (s, al, be, d)) \<Rightarrow> 2 * nat (4 - d)
      | Inr (Inr (s, ms, al, be, d, b, px)) \<Rightarrow> 2 * nat (4 - (d + 1)) + 1),
     (\<lambda>x. case x of
        Inl (Inl (s, al, be, d)) \<Rightarrow> 0
      | Inl (Inr (s, ms, al, be, d, b, px)) \<Rightarrow> length ms
      | Inr (Inl (s, al, be, d)) \<Rightarrow> 0
      | Inr (Inr (s, ms, al, be, d, b, px)) \<Rightarrow> length ms)]")
  apply (auto simp: cut_off_tests_def MAX_DEPTH_def split: if_splits)
  done

section \<open>The apply-move entry point\<close>

text \<open>
  \<open>move_string.split(' ')\<close> cuts at every single space, and \<open>int(m)\<close> reads a token.
  A character stands for its code point, below 256. \<open>int\<close> drops the white space it
  knows around the token: tab, line feed, vertical tab, form feed, carriage return and
  space, and the two other white-space characters of that range, U+0085 and U+00A0 (the
  separators U+001C to U+001F are not dropped). What is left must be
  an optional sign and decimal digits \<open>0\<close> to \<open>9\<close>, with single underscores allowed
  between digits, and at most \<open>MAX_STR_DIGITS\<close> digits, the interpreter's default bound.
  Anything else raises \<open>ValueError\<close>.
\<close>

fun split_space :: "string \<Rightarrow> string list" where
  "split_space [] = [[]]"
| "split_space (c # cs) =
     (if c = CHR '' '' then [] # split_space cs
      else (case split_space cs of [] \<Rightarrow> [[c]] | t # ts \<Rightarrow> (c # t) # ts))"

definition is_space :: "char \<Rightarrow> bool" where
  "is_space c = (of_char c \<in> set [9, 10, 11, 12, 13, 32, 133, 160 :: nat])"

definition MAX_STR_DIGITS :: nat where
  "MAX_STR_DIGITS = 4300"

definition strip :: "string \<Rightarrow> string" where
  "strip s = rev (dropWhile is_space (rev (dropWhile is_space s)))"

definition digit_val :: "char \<Rightarrow> int option" where
  "digit_val c =
     (let n = (of_char c :: nat) in if 48 \<le> n \<and> n \<le> 57 then Some (int n - 48) else None)"

fun parse_digits :: "int \<Rightarrow> string \<Rightarrow> int option" where
  "parse_digits acc [] = Some acc"
| "parse_digits acc [c] =
     (case digit_val c of None \<Rightarrow> None | Some v \<Rightarrow> Some (acc * 10 + v))"
| "parse_digits acc (c # d # ds) =
     (if c = CHR ''_'' then
        (case digit_val d of None \<Rightarrow> None | Some v \<Rightarrow> parse_digits (acc * 10 + v) ds)
      else (case digit_val c of None \<Rightarrow> None | Some v \<Rightarrow> parse_digits (acc * 10 + v) (d # ds)))"

definition count_digits :: "string \<Rightarrow> nat" where
  "count_digits s = length (filter (\<lambda>c. digit_val c \<noteq> None) s)"

definition parse_literal :: "string \<Rightarrow> int option" where
  "parse_literal s =
     (case s of [] \<Rightarrow> None
      | c # cs \<Rightarrow>
          (case digit_val c of
             None \<Rightarrow> None
           | Some v \<Rightarrow> if MAX_STR_DIGITS < count_digits s then None else parse_digits v cs))"

definition py_int :: "string \<Rightarrow> int option" where
  "py_int s =
     (case strip s of
        [] \<Rightarrow> None
      | c # cs \<Rightarrow>
          if c = CHR ''-'' then map_option uminus (parse_literal cs)
          else if c = CHR ''+'' then parse_literal cs
          else parse_literal (c # cs))"

text \<open>
  \<open>update\<close>: the result is the returned value (\<open>None\<close>, or \<open>2 * winner - 1\<close>) and the
  state; \<open>mes\<close> is passed on to \<open>victory\<close> only and is left out.
\<close>

definition update :: "jungle \<Rightarrow> int \<Rightarrow> string \<Rightarrow> error + (int option \<times> jungle)" where
  "update s player move_string =
     (let s0 = s\<lparr>curplayer := player\<rparr> in
      case those (map py_int (split_space move_string)) of
        None \<Rightarrow> Inl ValueError
      | Some mv \<Rightarrow>
          if length mv \<noteq> 4 then Inl WrongMove
          else
            (case moves s0 player of
               Inl e \<Rightarrow> Inl e
             | Inr possible_moves \<Rightarrow>
                 (case (if possible_moves = [] then
                          (if mv \<noteq> [-1, -1, -1, -1] then Inl WrongMove else Inr None)
                        else
                          (let m = ((mv ! 0, mv ! 1), (mv ! 2, mv ! 3)) in
                           if m \<notin> set possible_moves then Inl WrongMove else Inr (Some m))) of
                    Inl e \<Rightarrow> Inl e
                  | Inr m \<Rightarrow>
                      (case do_move s0 m of
                         Inl e \<Rightarrow> Inl e
                       | Inr s1 \<Rightarrow>
                           (case victory s1 player of
                              Inl e \<Rightarrow> Inl e
                            | Inr (t, s2) \<Rightarrow>
                                if t then
                                  (case winner s2 of
                                     None \<Rightarrow> Inl AssertionError
                                   | Some w \<Rightarrow> Inr (Some (2 * w - 1), s2))
                                else Inr (None, s2))))))"

section \<open>Choosing among the rollout scores (Player.loop)\<close>

text \<open>
  The rollouts are random; their outcomes are an input here: \<open>sym_res i j\<close> is what the
  \<open>j\<close>-th call of \<open>self.sym\<close> for candidate \<open>i\<close> returns. \<open>max_move_loop\<close> is the
  \<open>for i in mov\<close> loop with its variables \<open>max_wygr\<close> and \<open>max_move\<close>;
  \<open>random.choice\<close> then draws from the list it returns.
\<close>

definition licz_of :: "(move \<Rightarrow> nat \<Rightarrow> bool) \<Rightarrow> move \<Rightarrow> int" where
  "licz_of sym_res i = int (length (filter (sym_res i) [0..<LICZ_ROZGR]))"

fun max_move_loop :: "(move \<Rightarrow> nat \<Rightarrow> bool) \<Rightarrow> move list \<Rightarrow> int \<Rightarrow> move list \<Rightarrow> move list" where
  "max_move_loop sym_res [] max_wygr max_move = max_move"
| "max_move_loop sym_res (i # rest) max_wygr max_move =
     (let licz = licz_of sym_res i in
      if max_wygr \<le> licz then max_move_loop sym_res rest licz (max_move @ [i])
      else max_move_loop sym_res rest max_wygr max_move)"

definition max_move_of :: "(move \<Rightarrow> nat \<Rightarrow> bool) \<Rightarrow> move list \<Rightarrow> move list" where
  "max_move_of sym_res mov = max_move_loop sym_res mov (-1) []"

section \<open>Predicates used in the statements, and example positions\<close>

text \<open>
  A rat recorded in dictionary \<open>d\<close> stands on a river cell in the path of a leap from
  \<open>pos\<close> by \<open>(dx, dy)\<close>: same \<open>x\<close> for a vertical leap; same \<open>y\<close> and at most 2 columns from
  both ends for a horizontal one.
\<close>

definition rat_in_path :: "pdict \<Rightarrow> pos \<Rightarrow> int \<Rightarrow> int \<Rightarrow> bool" where
  "rat_in_path d pos dx dy =
     (\<exists>rx ry. map_of d rat = Some (rx, ry) \<and> (rx, ry) \<in> set ponds \<and>
        ((dy \<noteq> 0 \<and> fst pos = rx) \<or>
         (dx \<noteq> 0 \<and> snd pos = ry \<and> \<bar>fst pos - rx\<bar> \<le> 2 \<and> \<bar>fst pos + dx - rx\<bar> \<le> 2)))"

text \<open>Player \<open>pl\<close> holds a living piece of rank \<open>i\<close>; the den of player \<open>pl\<close> is empty.\<close>

definition has_rank :: "jungle \<Rightarrow> int \<Rightarrow> int \<Rightarrow> bool" where
  "has_rank s pl i = (\<exists>p. map_of (pdict_of s pl) i = Some p)"

definition den_free :: "jungle \<Rightarrow> int \<Rightarrow> bool" where
  "den_free s pl = (\<exists>x y. py_index dens pl = Inr (x, y) \<and> board_get (board s) x y = Inr None)"

text \<open>
  Positions used as concrete inputs. \<open>own_rat_board\<close>: player 0's tiger at \<open>(0, 3)\<close> next
  to player 0's own rat in the river at \<open>(1, 3)\<close>; player 1 has a dog and a lion, no rat.
  \<open>den_board\<close>: player 0's rat stands on player 1's den \<open>(3, 0)\<close>. \<open>stuck_board\<close>: player
  0's only piece, the rat in the corner, is shut in by a cat and a dog it cannot take.
  \<open>passive_board\<close>: both sides hold a lion, player 1 a dog, player 0 a wolf.
  \<open>capture_board\<close>: player 0's dog at \<open>(1, 0)\<close> stands next to player 1's dog at
  \<open>(2, 0)\<close> and can take it; player 0 also has a wolf, player 1 a wolf. \<open>after_search\<close>
  is \<open>capture_board\<close> with the entries of both dictionaries in the other order and the
  winner flag set.
\<close>

definition own_rat_board :: "piece option list list" where
  "own_rat_board =
    [[Some (1, 2), None, None, None, None, None, None],
     [None, None, None, None, None, None, None],
     [None, None, None, None, None, None, None],
     [Some (0, 5), Some (0, 0), None, None, None, None, None],
     [None, None, None, None, None, None, Some (1, 6)],
     [None, None, None, None, None, None, None],
     [None, None, None, None, None, None, None],
     [None, None, None, None, None, None, None],
     [None, None, None, None, None, None, None]]"

definition den_board :: "piece option list list" where
  "den_board =
    [[Some (1, 6), None, None, Some (0, 0), None, None, None],
     [None, None, None, None, None, None, None],
     [None, None, None, None, None, None, None],
     [None, None, None, None, None, None, None],
     [None, None, None, None, None, None, None],
     [None, None, None, None, None, None, None],
     [None, None, None, None, None, None, None],
     [None, None, None, None, None, None, None],
     [None, None, None, None, None, None, None]]"

definition stuck_board :: "piece option list list" where
  "stuck_board =
    [[Some (0, 0), Some (1, 1), None, None, None, None, None],
     [Some (1, 2), None, None, None, None, None, None],
     [None, None, None, None, None, None, None],
     [None, None, None, None, None, None, None],
     [None, None, None, None, None, None, None],
     [None, None, None, None, None, None, None],
     [None, None, None, None, None, None, None],
     [None, None, None, None, None, None, None],
     [None, None, None, None, None, None, None]]"

definition passive_board :: "piece option list list" where
  "passive_board =
    [[Some (1, 6), None, None, None, None, None, None],
     [None, Some (1, 2), None, None, None, None, None],
     [None, None, None, None, None, None, None],
     [None, None, None, None, None, None, None],
     [None, None, None, None, None, None, None],
     [None, None, None, None, None, None, None],
     [None, None, None, None, None, None, None],
     [None, Some (0, 3), None, None, None, None, None],
     [None, None, None, None, None, None, Some (0, 6)]]"

definition capture_board :: "piece option list list" where
  "capture_board =
    [[Some (0, 3), Some (0, 2), Some (1, 2), None, None, None, None],
     [None, None, None, None, None, None, None],
     [Some (1, 3), None, None, None, None, None, None],
     [None, None, None, None, None, None, None],
     [None, None, None, None, None, None, None],
     [None, None, None, None, None, None, None],
     [None, None, None, None, None, None, None],
     [None, None, None, None, None, None, None],
     [None, None, None, None, None, None, None]]"

definition after_search :: jungle where
  "after_search =
     (jungle_of capture_board)\<lparr>pieces := ([(2, 1, 0), (3, 0, 0)], [(3, 0, 2), (2, 2, 0)]),
                                winner := Some 0\<rparr>"

section \<open>The invariant of the two views\<close>

text \<open>
  The board as a grid: \<open>in_range\<close> are the coordinates of the 7 by 9 board, \<open>board_ok\<close>
  says the list of rows has that shape, \<open>cell\<close> reads and \<open>put\<close> writes a cell of such a
  board.
\<close>

definition in_range :: "int \<Rightarrow> int \<Rightarrow> bool" where
  "in_range x y = (0 \<le> x \<and> x < 7 \<and> 0 \<le> y \<and> y < 9)"

definition board_ok :: "piece option list list \<Rightarrow> bool" where
  "board_ok b = (length b = 9 \<and> (\<forall>row \<in> set b. length row = 7))"

definition cell :: "piece option list list \<Rightarrow> int \<Rightarrow> int \<Rightarrow> piece option" where
  "cell b x y = b ! nat y ! nat x"

definition put :: "piece option list list \<Rightarrow> int \<Rightarrow> int \<Rightarrow> piece option \<Rightarrow> piece option list list" where
  "put b x y v = b[nat y := (b ! nat y)[nat x := v]]"

text \<open>
  \<open>pmap s pl\<close> is the dictionary of player \<open>pl\<close> as a map. Two states show the same
  position when the board, both maps and the passivity counter are equal; the order in
  which the dictionaries list their entries, the turn and the winner flag may differ.
\<close>

definition pmap :: "jungle \<Rightarrow> int \<Rightarrow> int \<rightharpoonup> pos" where
  "pmap s pl = map_of (pdict_of s pl)"

definition same_position :: "jungle \<Rightarrow> jungle \<Rightarrow> bool" where
  "same_position s t =
     (board s = board t \<and> pmap s 0 = pmap t 0 \<and> pmap s 1 = pmap t 1
      \<and> peace_counter s = peace_counter t)"

text \<open>
  The invariant \<open>game_inv\<close>: the board has its shape, no dictionary lists a rank twice,
  a cell holds \<open>(pl, pc)\<close> exactly when the dictionary of \<open>pl\<close> sends \<open>pc\<close> to that cell
  (\<open>views_agree\<close>), and every recorded piece stands on the board, has a rank from 0 to 7 and
  is a rat if it stands in the river (\<open>pieces_placed\<close>).
\<close>

definition views_agree :: "jungle \<Rightarrow> bool" where
  "views_agree s =
     (\<forall>x y pl pc. in_range x y \<longrightarrow>
        (cell (board s) x y = Some (pl, pc)) = ((pl = 0 \<or> pl = 1) \<and> pmap s pl pc = Some (x, y)))"

definition pieces_placed :: "jungle \<Rightarrow> bool" where
  "pieces_placed s =
     (\<forall>pl pc x y. (pl = 0 \<or> pl = 1) \<longrightarrow> pmap s pl pc = Some (x, y) \<longrightarrow>
        in_range x y \<and> 0 \<le> pc \<and> pc \<le> 7 \<and> ((x, y) \<in> set ponds \<longrightarrow> pc = rat))"

definition game_inv :: "jungle \<Rightarrow> bool" where
  "game_inv s =
     (board_ok (board s)
      \<and> distinct (map fst (pdict_of s 0)) \<and> distinct (map fst (pdict_of s 1))
      \<and> views_agree s \<and> pieces_placed s)"

text \<open>
  \<open>check_inv\<close> is the invariant as a computation over the cells and the entries, for
  concrete positions.
\<close>

definition check_inv :: "jungle \<Rightarrow> bool" where
  "check_inv s =
     (length (board s) = 9 \<and> list_all (\<lambda>row. length row = 7) (board s)
      \<and> distinct (map fst (pdict_of s 0)) \<and> distinct (map fst (pdict_of s 1))
      \<and> list_all (\<lambda>pl. list_all (\<lambda>(pc, (x, y)).
            0 \<le> x \<and> x < 7 \<and> 0 \<le> y \<and> y < 9 \<and> 0 \<le> pc \<and> pc \<le> 7
            \<and> ((x, y) \<in> set ponds \<longrightarrow> pc = rat)
            \<and> board s ! nat y ! nat x = Some (pl, pc)) (pdict_of s pl)) [0, 1]
      \<and> list_all (\<lambda>y. list_all (\<lambda>x.
            (case board s ! nat y ! nat x of None \<Rightarrow> True
             | Some (pl, pc) \<Rightarrow> (pl = 0 \<or> pl = 1) \<and> map_of (pdict_of s pl) pc = Some (x, y)))
            [0, 1, 2, 3, 4, 5, 6]) [0, 1, 2, 3, 4, 5, 6, 7, 8])"

text \<open>
  What every move that \<open>moves\<close> returns satisfies (\<open>legal\<close>): it starts at a piece of the
  player, ends on the board on another cell, enters the river only with a rat, and does
  not end on a piece of the player. \<open>moved s player pc m s'\<close> describes the state after the
  piece \<open>pc\<close> of \<open>player\<close> has made move \<open>m\<close>.
\<close>

definition legal :: "jungle \<Rightarrow> int \<Rightarrow> move \<Rightarrow> bool" where
  "legal s player m =
     (\<exists>pc. pmap s player pc = Some (fst m)
        \<and> in_range (fst (snd m)) (snd (snd m)) \<and> snd m \<noteq> fst m
        \<and> (snd m \<in> set ponds \<longrightarrow> pc = rat)
        \<and> (\<forall>pl2 pc2. cell (board s) (fst (snd m)) (snd (snd m)) = Some (pl2, pc2)
              \<longrightarrow> pl2 \<noteq> player))"

definition moved :: "jungle \<Rightarrow> int \<Rightarrow> int \<Rightarrow> move \<Rightarrow> jungle \<Rightarrow> bool" where
  "moved s player pc m s' =
     (let x = fst (fst m); y = snd (fst m); x2 = fst (snd m); y2 = snd (snd m);
          t = cell (board s) x2 y2 in
      board s' = put (put (board s) x2 y2 (Some (player, pc))) x y None
      \<and> pmap s' player = (pmap s player)(pc \<mapsto> (x2, y2))
      \<and> pmap s' (1 - player) =
            (case t of None \<Rightarrow> pmap s (1 - player)
             | Some q \<Rightarrow> (pmap s (1 - player))(snd q := None))
      \<and> peace_counter s' = (if t = None then peace_counter s + 1 else 0)
      \<and> curplayer s' = curplayer s \<and> winner s' = winner s
      \<and> distinct (map fst (pdict_of s' 0)) \<and> distinct (map fst (pdict_of s' 1)))"

text \<open>
  \<open>restored res s\<close>: the call returned, and left a state that shows the position of \<open>s\<close>
  and satisfies the invariant.
\<close>

definition restored :: "error + (result \<times> jungle) \<Rightarrow> jungle \<Rightarrow> bool" where
  "restored res s = (\<exists>r s'. res = Inr (r, s') \<and> same_position s' s \<and> game_inv s')"

text \<open>
  For \<open>victory\<close> and \<open>update\<close>: the winner the rank comparison gives, the move four
  integers denote, and the part of \<open>update\<close> after the validation.
\<close>

definition passivity_winner :: "jungle \<Rightarrow> int" where
  "passivity_winner s = (case pieces_comparison s of None \<Rightarrow> 0 | Some r \<Rightarrow> r)"

definition decode_move :: "int list \<Rightarrow> move" where
  "decode_move mv = ((mv ! 0, mv ! 1), (mv ! 2, mv ! 3))"

definition finish_move :: "jungle \<Rightarrow> int \<Rightarrow> move option \<Rightarrow> error + (int option \<times> jungle)" where
  "finish_move s0 player m =
     (case do_move s0 m of
        Inl e \<Rightarrow> Inl e
      | Inr s1 \<Rightarrow>
          (case victory s1 player of
             Inl e \<Rightarrow> Inl e
           | Inr (t, s2) \<Rightarrow>
               if t then
                 (case winner s2 of
                    None \<Rightarrow> Inl AssertionError
                  | Some w \<Rightarrow> Inr (Some (2 * w - 1), s2))
               else Inr (None, s2)))"

text \<open>
  The consistency of the two views in the words of the claim: every recorded piece is on
  the board where the index says; a cell of the board holds \<open>(pl, pc)\<close> exactly when the
  index of \<open>pl\<close> sends \<open>pc\<close> there; each player has at most 8 pieces, one per rank; no two
  recorded pieces share a cell.
\<close>

definition views_consistent :: "jungle \<Rightarrow> bool" where
  "views_consistent s =
     ((\<forall>pl pc x y. (pl = 0 \<or> pl = 1) \<and> map_of (pdict_of s pl) pc = Some (x, y)
          \<longrightarrow> board_get (board s) x y = Inr (Some (pl, pc)))
      \<and> (\<forall>x y pl pc. 0 \<le> x \<and> x < MX \<and> 0 \<le> y \<and> y < MY
          \<longrightarrow> (board_get (board s) x y = Inr (Some (pl, pc)))
                = ((pl = 0 \<or> pl = 1) \<and> map_of (pdict_of s pl) pc = Some (x, y)))
      \<and> (\<forall>pl. pl = 0 \<or> pl = 1
          \<longrightarrow> length (pdict_of s pl) \<le> 8 \<and> distinct (map fst (pdict_of s pl)))
      \<and> (\<forall>pl pc pl' pc' p. (pl = 0 \<or> pl = 1) \<and> (pl' = 0 \<or> pl' = 1)
            \<and> map_of (pdict_of s pl) pc = Some p \<and> map_of (pdict_of s pl') pc' = Some p
          \<longrightarrow> pl = pl' \<and> pc = pc'))"

text \<open>The states of real play: the start, and what \<open>update\<close> and a pass lead to.\<close>

inductive reachable :: "jungle \<Rightarrow> bool" where
  start: "reachable init"
| played: "reachable s \<Longrightarrow> update s player str = Inr (r, s') \<Longrightarrow> reachable s'"
| passed: "reachable s \<Longrightarrow> do_move s None = Inr s' \<Longrightarrow> reachable s'"

section \<open>Capture precedence on traps\<close>

lemma in_ponds: "(x, y) \<in> set ponds \<longleftrightarrow> (x = 1 \<or> x = 2 \<or> x = 4 \<or> x = 5) \<and> (y = 3 \<or> y = 4 \<or> y = 5)"
  by (auto simp: ponds_def)

lemma in_traps: "(x, y) \<in> set traps \<longleftrightarrow> (x, y) = (2, 0) \<or> (x, y) = (4, 0) \<or> (x, y) = (3, 1) \<or> (x, y) = (2, 8) \<or> (x, y) = (4, 8) \<or> (x, y) = (3, 7)"
  by (auto simp: traps_def)

text \<open>
  C5. Claimed: a defender on a trap is captured by any attacker not in the river, an
  elephant attacking a rat included. The code tests elephant against rat before it looks
  at the trap, so that one pair is refused; every other attacker from land takes a
  defender on a trap.
\<close>

theorem can_beat_on_trap:
  "pos1 \<notin> set ponds \<Longrightarrow> pos2 \<in> set traps \<Longrightarrow>
     can_beat p1 p2 pos1 pos2 = (\<not> (p1 = elephant \<and> p2 = rat))"
  by (auto simp: can_beat_def rank_defs)

theorem can_beat_on_trap_witness:
  "(3, 2) \<notin> set ponds \<and> (3, 1) \<in> set traps \<and> can_beat cat elephant (3, 2) (3, 1)"
  using can_beat_on_trap [of "(3, 2)" "(3, 1)" cat elephant]
  by (simp add: ponds_def traps_def rank_defs)

theorem elephant_rat_trap_counterexample:
  "(3, 2) \<notin> set ponds \<and> (3, 1) \<in> set traps \<and> \<not> can_beat elephant rat (3, 2) (3, 1)"
  by (simp add: can_beat_def ponds_def traps_def rank_defs)

section \<open>The river block\<close>

lemma rat_is_blocking_loop_iff:
  "rat_is_blocking_loop s pos dx dy ps \<longleftrightarrow>
     (\<exists>player \<in> set ps. rat_in_path (pdict_of s (1 - player)) pos dx dy)"
proof (induction ps)
  case Nil
  show ?case by simp
next
  case (Cons player rest)
  show ?case
  proof (cases "map_of (pdict_of s (1 - player)) rat")
    case None
    then show ?thesis using Cons by (simp add: rat_in_path_def)
  next
    case (Some r)
    obtain rx ry where r: "r = (rx, ry)" by (cases r)
    show ?thesis using Cons Some r
      by (simp add: rat_in_path_def Let_def) blast
  qed
qed

lemma rat_is_blocking_iff:
  "rat_is_blocking s pl pos dx dy \<longleftrightarrow>
     rat_in_path (pdict_of s 0) pos dx dy \<or> rat_in_path (pdict_of s 1) pos dx dy"
  by (auto simp: rat_is_blocking_def rat_is_blocking_loop_iff)

lemma dens_not_pond: "player = 0 \<or> player = 1 \<Longrightarrow> py_index dens player = Inr den \<Longrightarrow> den \<notin> set ponds"
  by (auto simp: py_index_def py_norm_def dens_def ponds_def)

lemma py_index_dens: "player = 0 \<or> player = 1 \<Longrightarrow> py_index dens player = Inr (if player = 0 then (3, 8) else (3, 0))"
  by (auto simp: py_index_def py_norm_def dens_def)

text \<open>
  C6. Claimed: the leap of a tiger or lion is rejected exactly when a rat of the opponent
  is in the path. The code reads the rats of both players (its player argument is not
  used): a step of a tiger or lion into a river cell yields no move exactly when a rat of
  either player is in the path, and otherwise goes on to the occupancy and capture test at
  the far bank, 3 columns or 4 rows away.
\<close>

theorem leap_blocked_by_any_rat:
  assumes "p = tiger \<or> p = lion" and "player = 0 \<or> player = 1"
    and "(x + dx, y + dy) \<in> set ponds" and "(dx, dy) \<in> set dirs"
  shows "move_in_dir s player p (x, y) (dx, dy) =
           (if rat_in_path (pdict_of s 0) (x, y) (3 * dx) (4 * dy)
               \<or> rat_in_path (pdict_of s 1) (x, y) (3 * dx) (4 * dy)
            then Inr []
            else move_target s player p (x, y) (x + 3 * dx, y + 4 * dy))"
proof -
  have rng: "0 \<le> x + dx \<and> x + dx < MX \<and> 0 \<le> y + dy \<and> y + dy < MY"
    using assms(3) by (auto simp: in_ponds MX_def MY_def)
  have den: "py_index dens player = Inr (if player = 0 then (3, 8) else (3, 0))"
    using assms(2) by (rule py_index_dens)
  have nd: "(if player = 0 then (3, 8) else (3, 0)) \<noteq> (x + dx, y + dy)"
    using assms(3) by (auto simp: in_ponds)
  have d: "(dx \<noteq> 0 \<and> dy = 0) \<or> (dx = 0 \<and> dy \<noteq> 0)"
    using assms(4) by (auto simp: dirs_def)
  from d show ?thesis
    using assms(1) rng den nd assms(3)
    by (auto simp: move_in_dir_def Let_def rat_is_blocking_iff rank_defs mult.commute)
qed

theorem own_rat_blocks_counterexample:
  "map_of (pdict_of (jungle_of own_rat_board) 1) rat = None
   \<and> move_target (jungle_of own_rat_board) 0 tiger (0, 3) (3, 3) = Inr [((0, 3), (3, 3))]
   \<and> move_in_dir (jungle_of own_rat_board) 0 tiger (0, 3) (1, 0) = Inr []"
  by code_simp

theorem leap_blocked_by_any_rat_witness:
  "(lion = tiger \<or> lion = lion) \<and> (1 = (0::int) \<or> 1 = (1::int))
   \<and> (6 + (-1), 4 + 0) \<in> set ponds \<and> (-1, 0) \<in> set dirs
   \<and> move_in_dir (jungle_of own_rat_board) 1 lion (6, 4) (-1, 0) = Inr [((6, 4), (3, 4))]"
proof -
  have h3: "(6 + (-1), 4 + 0) \<in> set ponds" by (simp add: ponds_def)
  have h4: "(-1, 0) \<in> set dirs" by (simp add: dirs_def)
  have e: "move_target (jungle_of own_rat_board) 1 lion (6, 4) (3, 4) = Inr [((6, 4), (3, 4))]"
    by code_simp
  have r: "\<not> rat_in_path (pdict_of (jungle_of own_rat_board) 0) (6, 4) (3 * (-1)) (4 * 0)"
          "\<not> rat_in_path (pdict_of (jungle_of own_rat_board) 1) (6, 4) (3 * (-1)) (4 * 0)"
    by (simp_all add: rat_in_path_def pdict_of_def jungle_of_def own_rat_board_def rat_def)
  show ?thesis
    using leap_blocked_by_any_rat [of lion 1 6 "-1" 4 0 "jungle_of own_rat_board", OF _ _ h3 h4] h3 h4 e r
    by simp
qed

section \<open>Passivity resolution\<close>

lemma dict_has_has_rank: "dict_has (pdict_of s pl) i = has_rank s pl i"
  by (auto simp: dict_has_def has_rank_def)

lemma pieces_comparison_loop_step:
  "pieces_comparison_loop s (i # is) =
     (if has_rank s 0 i = has_rank s 1 i then pieces_comparison_loop s is
      else Some (if has_rank s 0 i then 0 else 1))"
  by (simp add: dict_has_has_rank)

lemma pieces_comparison_loop_none:
  "(\<forall>i \<in> set is. has_rank s 0 i = has_rank s 1 i) \<Longrightarrow> pieces_comparison_loop s is = None"
proof (induction "is")
  case Nil
  show ?case by simp
next
  case (Cons i "is")
  then show ?case by (simp only: pieces_comparison_loop_step) simp
qed

lemma pieces_comparison_loop_first:
  "i \<in> set is \<Longrightarrow> has_rank s 0 i \<noteq> has_rank s 1 i \<Longrightarrow>
   (\<forall>j \<in> set (takeWhile (\<lambda>j. j \<noteq> i) is). has_rank s 0 j = has_rank s 1 j) \<Longrightarrow>
   pieces_comparison_loop s is = Some (if has_rank s 0 i then 0 else 1)"
proof (induction "is")
  case Nil
  then show ?case by simp
next
  case (Cons k "is")
  show ?case
  proof (cases "k = i")
    case True
    then show ?thesis using Cons.prems(2) by (simp only: pieces_comparison_loop_step) simp
  next
    case False
    then have "has_rank s 0 k = has_rank s 1 k" using Cons.prems(3) by simp
    moreover have "pieces_comparison_loop s is = Some (if has_rank s 0 i then 0 else 1)"
      using Cons False by simp
    ultimately show ?thesis by (simp only: pieces_comparison_loop_step) simp
  qed
qed

lemma above_ranks:
  "0 \<le> i \<Longrightarrow> i \<le> 7 \<Longrightarrow> set (takeWhile (\<lambda>j. j \<noteq> i) [7, 6, 5, 4, 3, 2, 1, 0 :: int]) \<subseteq> {i<..7}"
  by auto

lemma rank_list: "set [7, 6, 5, 4, 3, 2, 1, 0 :: int] = {0..7}"
  by auto

lemma pieces_comparison_draw:
  "(\<forall>i \<in> {0..7}. has_rank s 0 i = has_rank s 1 i) \<Longrightarrow> pieces_comparison s = None"
  unfolding pieces_comparison_def by (rule pieces_comparison_loop_none) (simp only: rank_list)

lemma pieces_comparison_decided:
  assumes "i \<in> {0..7}" and "has_rank s 0 i \<noteq> has_rank s 1 i"
    and "\<forall>j \<in> {i<..7}. has_rank s 0 j = has_rank s 1 j"
  shows "pieces_comparison s = Some (if has_rank s 0 i then 0 else 1)"
  unfolding pieces_comparison_def
proof (rule pieces_comparison_loop_first)
  show "i \<in> set [7, 6, 5, 4, 3, 2, 1, 0]" using assms(1) by (simp only: rank_list)
  show "has_rank s 0 i \<noteq> has_rank s 1 i" by (rule assms(2))
  show "\<forall>j\<in>set (takeWhile (\<lambda>j. j \<noteq> i) [7, 6, 5, 4, 3, 2, 1, 0]). has_rank s 0 j = has_rank s 1 j"
    using assms(1,3) above_ranks [of i] by (meson atLeastAtMost_iff subsetD)
qed

text \<open>
  C7. With the counter at 30 or more, the opponent still holding a piece and the
  opponent's den empty, \<open>victory\<close> reports a terminal state; the winner is 0 when every
  rank from 0 to 7 is held by both or by neither, and otherwise the holder of the highest
  rank held by exactly one player.
\<close>

theorem victory_passivity:
  assumes "player = 0 \<or> player = 1"
    and "pdict_of s (1 - player) \<noteq> []"
    and "den_free s (1 - player)"
    and "peace_counter s \<ge> 30"
  shows "\<exists>w. victory s player = Inr (True, s\<lparr>winner := Some w\<rparr>)
           \<and> ((\<forall>i \<in> {0..7}. has_rank s 0 i = has_rank s 1 i) \<longrightarrow> w = 0)
           \<and> (\<forall>i \<in> {0..7}. has_rank s 0 i \<noteq> has_rank s 1 i
                 \<and> (\<forall>j \<in> {i<..7}. has_rank s 0 j = has_rank s 1 j)
                 \<longrightarrow> w = (if has_rank s 0 i then 0 else 1))"
proof -
  obtain x y where d: "py_index dens (1 - player) = Inr (x, y)" "board_get (board s) x y = Inr None"
    using assms(3) by (auto simp: den_free_def)
  have g: "pieces_get s (1 - player) = Inr (pdict_of s (1 - player))"
    using assms(1) by (auto simp: pieces_get_def)
  define w where "w = (case pieces_comparison s of None \<Rightarrow> 0 | Some r \<Rightarrow> r)"
  have v: "victory s player = Inr (True, s\<lparr>winner := Some w\<rparr>)"
    using g d assms(2,4)
    by (simp add: victory_def Let_def MAXIMAL_PASSIVE_def w_def split: option.splits)
  have a: "(\<forall>i \<in> {0..7}. has_rank s 0 i = has_rank s 1 i) \<longrightarrow> w = 0"
    by (auto simp: w_def dest: pieces_comparison_draw)
  have b: "\<forall>i \<in> {0..7}. has_rank s 0 i \<noteq> has_rank s 1 i
                 \<and> (\<forall>j \<in> {i<..7}. has_rank s 0 j = has_rank s 1 j)
                 \<longrightarrow> w = (if has_rank s 0 i then 0 else 1)"
  proof (intro ballI impI)
    fix i :: int assume i: "i \<in> {0..7}"
      and h: "has_rank s 0 i \<noteq> has_rank s 1 i \<and> (\<forall>j \<in> {i<..7}. has_rank s 0 j = has_rank s 1 j)"
    from pieces_comparison_decided [OF i] h
    have "pieces_comparison s = Some (if has_rank s 0 i then 0 else 1)" by blast
    then show "w = (if has_rank s 0 i then 0 else 1)" by (simp add: w_def)
  qed
  from v a b show ?thesis by blast
qed

theorem victory_passivity_witness:
  "victory ((jungle_of passive_board)\<lparr>peace_counter := 30\<rparr>) 1
     = Inr (True, (jungle_of passive_board)\<lparr>peace_counter := 30, winner := Some 0\<rparr>)"
proof -
  let ?s = "(jungle_of passive_board)\<lparr>peace_counter := 30\<rparr>"
  have h1: "(1::int) = 0 \<or> (1::int) = 1" by simp
  have h2: "pdict_of ?s (1 - 1) \<noteq> []" by code_simp
  have h3: "den_free ?s (1 - 1)"
    unfolding den_free_def by (rule exI [of _ 3], rule exI [of _ 8]) code_simp
  have h4: "peace_counter ?s \<ge> 30" by simp
  have r3: "has_rank ?s 0 3" "\<not> has_rank ?s 1 3"
    by (simp_all add: has_rank_def pdict_of_def jungle_of_def passive_board_def)
  have r: "\<forall>j \<in> {3<..7}. has_rank ?s 0 j = has_rank ?s 1 j"
  proof
    fix j :: int assume "j \<in> {3<..7}"
    then have "j = 4 \<or> j = 5 \<or> j = 6 \<or> j = 7" by auto
    then show "has_rank ?s 0 j = has_rank ?s 1 j"
      by (auto simp add: has_rank_def pdict_of_def jungle_of_def passive_board_def)
  qed
  from victory_passivity [OF h1 h2 h3 h4] obtain w where
    w: "victory ?s 1 = Inr (True, ?s\<lparr>winner := Some w\<rparr>)"
       "\<forall>i \<in> {0..7}. has_rank ?s 0 i \<noteq> has_rank ?s 1 i
                 \<and> (\<forall>j \<in> {i<..7}. has_rank ?s 0 j = has_rank ?s 1 j)
                 \<longrightarrow> w = (if has_rank ?s 0 i then 0 else 1)"
    by blast
  have "w = (if has_rank ?s 0 3 then 0 else 1)"
    using bspec [OF w(2), of 3] r3 r by simp
  then have "w = 0" using r3 by simp
  then show ?thesis using w(1) by simp
qed

section \<open>Passing\<close>

text \<open>
  C10. \<open>do_move\<close> with no move flips \<open>curplayer\<close> and leaves the board, both
  dictionaries, the passivity counter and the winner as they were.
\<close>

theorem do_move_pass:
  "do_move s None = Inr (s\<lparr>curplayer := 1 - curplayer s\<rparr>)
   \<and> (\<exists>s'. do_move s None = Inr s' \<and> curplayer s' = 1 - curplayer s \<and> board s' = board s
         \<and> pieces s' = pieces s \<and> peace_counter s' = peace_counter s \<and> winner s' = winner s)"
  by (simp add: do_move_def)

section \<open>Terminal utility, passing in the search, rollout choice\<close>

text \<open>
  C2. Claimed: at a terminal node the search returns plus infinity when player 0 has won.
  On \<open>den_board\<close> player 0 stands on player 1's den: \<open>victory\<close> reports the win of player
  0, and the search returns minus infinity.
\<close>

theorem terminal_value_player0_win:
  "victory (jungle_of den_board) 0 = Inr (True, (jungle_of den_board)\<lparr>winner := Some 0\<rparr>)
   \<and> max_alpha_beta (jungle_of den_board) NegInf PosInf 2 =
       Inr ((NegInf, Some 0, Some 0, Some 0, Some 0), (jungle_of den_board)\<lparr>winner := Some 0\<rparr>)"
  by code_simp

text \<open>
  C3. Claimed: a side without a legal move passes and the node takes the value of the
  other side's search one ply deeper. On \<open>stuck_board\<close> player 0 has no move and the
  state is not terminal; at depth 3 the search returns minus infinity without
  coordinates, whereas the other side's search at depth 4 returns 5.
\<close>

theorem no_moves_no_pass:
  "moves (jungle_of stuck_board) 0 = Inr []
   \<and> victory (jungle_of stuck_board) 0 = Inr (False, jungle_of stuck_board)
   \<and> max_alpha_beta (jungle_of stuck_board) NegInf PosInf 3 =
       Inr ((NegInf, None, None, None, None), jungle_of stuck_board)
   \<and> min_alpha_beta (jungle_of stuck_board) NegInf PosInf 4 =
       Inr ((Fin 5, Some 0, Some 0, Some 0, Some 0), jungle_of stuck_board)"
  by code_simp

text \<open>
  C9. Claimed: the move drawn has the maximum score. With two candidates scoring 0 and 4
  wins, the list the draw is made from holds both, the one with score 0 included.
\<close>

theorem first_candidate_kept:
  "licz_of (\<lambda>i j. i = ((6, 2), (6, 3))) ((0, 2), (0, 3)) = 0
   \<and> licz_of (\<lambda>i j. i = ((6, 2), (6, 3))) ((6, 2), (6, 3)) = 4
   \<and> max_move_of (\<lambda>i j. i = ((6, 2), (6, 3))) [((0, 2), (0, 3)), ((6, 2), (6, 3))]
       = [((0, 2), (0, 3)), ((6, 2), (6, 3))]"
  by code_simp

section \<open>Reading and writing cells\<close>

lemma py_norm_in: "0 \<le> i \<Longrightarrow> i < int n \<Longrightarrow> py_norm n i = Some (nat i)"
  by (simp add: py_norm_def)

lemma board_ok_row:
  "board_ok b \<Longrightarrow> 0 \<le> y \<Longrightarrow> y < 9 \<Longrightarrow> length (b ! nat y) = 7"
  by (simp add: board_ok_def)

lemma board_get_in:
  "board_ok b \<Longrightarrow> in_range x y \<Longrightarrow> board_get b x y = Inr (cell b x y)"
  using board_ok_row [of b y]
  by (simp add: board_get_def py_index_def in_range_def py_norm_in cell_def board_ok_def)

lemma board_set_in:
  "board_ok b \<Longrightarrow> in_range x y \<Longrightarrow> board_set b x y v = Inr (put b x y v)"
  using board_ok_row [of b y]
  by (simp add: board_set_def py_index_def py_setitem_def in_range_def py_norm_in put_def
      board_ok_def)

lemma board_ok_put: "board_ok b \<Longrightarrow> board_ok (put b x y v)"
proof -
  assume ok: "board_ok b"
  have "length row = 7" if "row \<in> set (put b x y v)" for row
  proof -
    from that have "row \<in> insert ((b ! nat y)[nat x := v]) (set b)"
      unfolding put_def using set_update_subset_insert by fastforce
    then show ?thesis
    proof
      assume "row = (b ! nat y)[nat x := v]"
      moreover have "nat y < length b \<Longrightarrow> length (b ! nat y) = 7"
        using ok by (simp add: board_ok_def)
      moreover have "\<not> nat y < length b \<Longrightarrow> put b x y v = b" by (simp add: put_def list_update_beyond)
      ultimately show ?thesis using that ok by (cases "nat y < length b") (auto simp: board_ok_def)
    next
      assume "row \<in> set b" then show ?thesis using ok by (simp add: board_ok_def)
    qed
  qed
  then show ?thesis using ok by (simp add: board_ok_def put_def)
qed

lemma cell_put:
  "board_ok b \<Longrightarrow> in_range x y \<Longrightarrow> in_range x' y' \<Longrightarrow>
   cell (put b x y v) x' y' = (if x' = x \<and> y' = y then v else cell b x' y')"
  by (auto simp: board_ok_def put_def cell_def in_range_def nth_list_update)

lemma board_ext:
  assumes "board_ok b" and "board_ok b'"
    and "\<And>x y. in_range x y \<Longrightarrow> cell b x y = cell b' x y"
  shows "b = b'"
proof (rule nth_equalityI)
  show "length b = length b'" using assms(1,2) by (simp add: board_ok_def)
next
  fix j assume j: "j < length b"
  then have j9: "j < 9" using assms(1) by (simp add: board_ok_def)
  have l: "length (b ! j) = 7" "length (b' ! j) = 7"
    using assms(1,2) j j9 by (auto simp: board_ok_def)
  show "b ! j = b' ! j"
  proof (rule nth_equalityI)
    show "length (b ! j) = length (b' ! j)" using l by simp
  next
    fix i assume "i < length (b ! j)"
    then have "in_range (int i) (int j)" using l j9 by (simp add: in_range_def)
    from assms(3) [OF this] show "b ! j ! i = b' ! j ! i" by (simp add: cell_def)
  qed
qed

section \<open>What a legal move does to both views\<close>

lemma pdict_of_updates [simp]:
  "pdict_of (s\<lparr>board := b\<rparr>) pl = pdict_of s pl"
  "pdict_of (s\<lparr>curplayer := c\<rparr>) pl = pdict_of s pl"
  "pdict_of (s\<lparr>peace_counter := n\<rparr>) pl = pdict_of s pl"
  "pdict_of (s\<lparr>winner := w\<rparr>) pl = pdict_of s pl"
  by (simp_all add: pdict_of_def)

lemma pieces_put_fields [simp]:
  "board (pieces_put s pl d) = board s"
  "curplayer (pieces_put s pl d) = curplayer s"
  "peace_counter (pieces_put s pl d) = peace_counter s"
  "winner (pieces_put s pl d) = winner s"
  by (simp_all add: pieces_put_def)

lemma pdict_of_pieces_put:
  "pdict_of (pieces_put s pl d) pl' = (if (pl = 0) = (pl' = 0) then d else pdict_of s pl')"
  by (simp add: pieces_put_def pdict_of_def)

lemma pmap_updates [simp]:
  "pmap (s\<lparr>board := b\<rparr>) pl = pmap s pl"
  "pmap (s\<lparr>curplayer := c\<rparr>) pl = pmap s pl"
  "pmap (s\<lparr>peace_counter := n\<rparr>) pl = pmap s pl"
  "pmap (s\<lparr>winner := w\<rparr>) pl = pmap s pl"
  by (simp_all add: pmap_def)

lemma pmap_pieces_put:
  "pmap (pieces_put s pl d) pl' = (if (pl = 0) = (pl' = 0) then map_of d else pmap s pl')"
  by (simp add: pmap_def pdict_of_pieces_put)

lemma pieces_get_ok: "pl = 0 \<or> pl = 1 \<Longrightarrow> pieces_get s pl = Inr (pdict_of s pl)"
  by (auto simp: pieces_get_def)

lemma pieces_set_ok:
  "pl = 0 \<or> pl = 1 \<Longrightarrow>
   pieces_set s pl pc v = Inr (pieces_put s pl (AList.update pc v (pdict_of s pl)))"
  by (simp add: pieces_set_def pieces_get_ok)

lemma pieces_del_ok:
  "pl = 0 \<or> pl = 1 \<Longrightarrow> pmap s pl pc = Some p \<Longrightarrow>
   pieces_del s pl pc = Inr (pieces_put s pl (AList.delete pc (pdict_of s pl)))"
  by (simp add: pieces_del_def pieces_get_ok dict_del_def dict_has_def pmap_def)

lemma legal_mover:
  assumes "game_inv s" and "player = 0 \<or> player = 1" and "legal s player m"
  obtains pc where "pmap s player pc = Some (fst m)" "in_range (fst (fst m)) (snd (fst m))"
    "cell (board s) (fst (fst m)) (snd (fst m)) = Some (player, pc)"
    "snd m \<in> set ponds \<longrightarrow> pc = rat" "0 \<le> pc" "pc \<le> 7"
proof -
  from assms(3) obtain pc where pc: "pmap s player pc = Some (fst m)"
    "snd m \<in> set ponds \<longrightarrow> pc = rat" by (auto simp: legal_def)
  from pc(1) have pc': "pmap s player pc = Some (fst (fst m), snd (fst m))" by simp
  from assms(1) have pp: "pieces_placed s" and va: "views_agree s" by (auto simp: game_inv_def)
  from pp pc' assms(2) have r: "in_range (fst (fst m)) (snd (fst m))" "0 \<le> pc" "pc \<le> 7"
    unfolding pieces_placed_def by blast+
  from va r(1) pc' assms(2) have "cell (board s) (fst (fst m)) (snd (fst m)) = Some (player, pc)"
    unfolding views_agree_def by blast
  with pc r that show thesis by blast
qed

lemma legal_target:
  assumes "game_inv s" and "player = 0 \<or> player = 1" and "legal s player m"
  shows "in_range (fst (snd m)) (snd (snd m))"
    and "snd m \<noteq> fst m"
    and "cell (board s) (fst (snd m)) (snd (snd m)) = Some (pl2, pc2) \<Longrightarrow>
           pl2 = 1 - player \<and> pmap s (1 - player) pc2 = Some (snd m)"
proof -
  show r: "in_range (fst (snd m)) (snd (snd m))" and "snd m \<noteq> fst m"
    using assms(3) by (auto simp: legal_def)
  assume c: "cell (board s) (fst (snd m)) (snd (snd m)) = Some (pl2, pc2)"
  from assms(3) c have ne: "pl2 \<noteq> player" by (auto simp: legal_def)
  from assms(1) have va: "views_agree s" by (auto simp: game_inv_def)
  from va r c have "(pl2 = 0 \<or> pl2 = 1) \<and> pmap s pl2 pc2 = Some (fst (snd m), snd (snd m))"
    unfolding views_agree_def by blast
  with ne assms(2) show "pl2 = 1 - player \<and> pmap s (1 - player) pc2 = Some (snd m)" by auto
qed

lemma shift_piece_legal:
  assumes inv: "game_inv s" and pl: "player = 0 \<or> player = 1" and lg: "legal s player m"
  shows "\<exists>s' pc. shift_piece s m = Inr (s', (player, pc), cell (board s) (fst (snd m)) (snd (snd m)))
            \<and> pmap s player pc = Some (fst m) \<and> moved s player pc m s'"
proof -
  obtain x y x2 y2 where m: "m = ((x, y), (x2, y2))" by (cases m) auto
  from legal_mover [OF inv pl lg] obtain pc where
    pc: "pmap s player pc = Some (x, y)" "in_range x y" "cell (board s) x y = Some (player, pc)"
    unfolding m by auto
  have r2: "in_range x2 y2" using legal_target(1) [OF inv pl lg] by (simp add: m)
  have ok: "board_ok (board s)" and d: "distinct (map fst (pdict_of s 0))"
    "distinct (map fst (pdict_of s 1))" using inv by (auto simp: game_inv_def)
  have g1: "board_get (board s) x y = Inr (Some (player, pc))"
    using board_get_in [OF ok pc(2)] pc(3) by simp
  have g2: "board_get (board s) x2 y2 = Inr (cell (board s) x2 y2)"
    by (rule board_get_in [OF ok r2])
  have op: "1 - player = 0 \<or> 1 - player = 1" using pl by auto
  show ?thesis
  proof (cases "cell (board s) x2 y2")
    case None
    let ?s' = "(pieces_put (s\<lparr>peace_counter := peace_counter s + 1\<rparr>) player
                 (AList.update pc (x2, y2) (pdict_of s player)))
               \<lparr>board := put (put (board s) x2 y2 (Some (player, pc))) x y None\<rparr>"
    have "shift_piece s m = Inr (?s', (player, pc), None)"
      using g1 g2 None pl ok r2 pc(2)
      by (simp add: shift_piece_def m Let_def pieces_set_ok board_set_in board_ok_put)
    moreover have "moved s player pc m ?s'"
      using None pl d
      by (auto simp: moved_def m Let_def pmap_pieces_put pdict_of_pieces_put
          AList.update_conv' AList.distinct_update pmap_def)
    ultimately show ?thesis using pc(1) None by (simp add: m)
  next
    case (Some q)
    obtain pl2 pc2 where q: "q = (pl2, pc2)" by (cases q)
    from legal_target(3) [OF inv pl lg, of pl2 pc2] Some q
    have e: "pl2 = 1 - player" "pmap s (1 - player) pc2 = Some (x2, y2)" by (auto simp: m)
    let ?s1 = "(pieces_put s (1 - player) (AList.delete pc2 (pdict_of s (1 - player))))
               \<lparr>peace_counter := 0\<rparr>"
    let ?s' = "(pieces_put ?s1 player (AList.update pc (x2, y2) (pdict_of ?s1 player)))
               \<lparr>board := put (put (board s) x2 y2 (Some (player, pc))) x y None\<rparr>"
    have dl: "pieces_del s pl2 pc2 =
                Inr (pieces_put s (1 - player) (AList.delete pc2 (pdict_of s (1 - player))))"
      using pieces_del_ok [OF op e(2)] e(1) by simp
    have "shift_piece s m = Inr (?s', (player, pc), Some q)"
      using g1 g2 Some q pl ok r2 pc(2) dl
      by (simp add: shift_piece_def m Let_def pieces_set_ok board_set_in board_ok_put)
    moreover have "moved s player pc m ?s'"
      using Some q pl d
      by (auto simp: moved_def m Let_def pmap_pieces_put pdict_of_pieces_put
          AList.update_conv' AList.delete_conv' AList.distinct_update AList.distinct_delete pmap_def)
    ultimately show ?thesis using pc(1) Some by (simp add: m)
  qed
qed

lemma rank_unique:
  assumes "game_inv s" and "pl = 0 \<or> pl = 1"
    and "pmap s pl pc = Some p" and "pmap s pl pc' = Some p"
  shows "pc = pc'"
proof -
  obtain x y where p: "p = (x, y)" by (cases p)
  have va: "views_agree s" and pp: "pieces_placed s" using assms(1) by (auto simp: game_inv_def)
  have r: "in_range x y" using pp assms(2,3) unfolding pieces_placed_def p by blast
  have "cell (board s) x y = Some (pl, pc)" "cell (board s) x y = Some (pl, pc')"
    using va r assms(2,3,4) unfolding views_agree_def p by blast+
  then show ?thesis by simp
qed

lemma moved_views_agree:
  assumes inv: "game_inv s" and pl: "player = 0 \<or> player = 1" and lg: "legal s player m"
    and pc: "pmap s player pc = Some (fst m)" and mv: "moved s player pc m s'"
  shows "views_agree s'"
proof -
  obtain x y x2 y2 where m: "m = ((x, y), (x2, y2))" by (cases m) auto
  let ?b = "board s"
  let ?t = "cell ?b x2 y2"
  have ok: "board_ok ?b" and va: "views_agree s" and pp: "pieces_placed s"
    using inv by (auto simp: game_inv_def)
  have r: "in_range x y" using pp pc pl unfolding pieces_placed_def m by auto
  have r2: "in_range x2 y2" and ne: "(x2, y2) \<noteq> (x, y)"
    using legal_target(1,2) [OF inv pl lg] by (auto simp: m)
  have A: "\<And>x' y' pl' pc'. in_range x' y' \<Longrightarrow>
             (cell ?b x' y' = Some (pl', pc')) = ((pl' = 0 \<or> pl' = 1) \<and> pmap s pl' pc' = Some (x', y'))"
    using va unfolding views_agree_def by blast
  have B: "cell ?b x y = Some (player, pc)" using A [OF r] pc pl by (simp add: m)
  have T: "\<And>pl2 pc2. ?t = Some (pl2, pc2) \<Longrightarrow> pl2 = 1 - player \<and> pmap s (1 - player) pc2 = Some (x2, y2)"
    using legal_target(3) [OF inv pl lg] by (simp add: m)
  have b': "board s' = put (put ?b x2 y2 (Some (player, pc))) x y None"
    and p1: "pmap s' player = (pmap s player)(pc \<mapsto> (x2, y2))"
    and p2: "pmap s' (1 - player) =
               (case ?t of None \<Rightarrow> pmap s (1 - player) | Some q \<Rightarrow> (pmap s (1 - player))(snd q := None))"
    using mv by (simp_all add: moved_def m Let_def)
  have c': "\<And>x' y'. in_range x' y' \<Longrightarrow>
              cell (board s') x' y' =
                (if (x', y') = (x, y) then None
                 else if (x', y') = (x2, y2) then Some (player, pc) else cell ?b x' y')"
    using ok r r2 by (auto simp: b' cell_put board_ok_put)
  have own: "\<And>pc' x' y'. in_range x' y' \<Longrightarrow>
               (pmap s' player pc' = Some (x', y')) =
                 (if (x', y') = (x, y) then False
                  else if (x', y') = (x2, y2) then pc' = pc
                  else pmap s player pc' = Some (x', y'))"
  proof -
    fix pc' x' y' assume r': "in_range x' y'"
    show "(pmap s' player pc' = Some (x', y')) =
                 (if (x', y') = (x, y) then False
                  else if (x', y') = (x2, y2) then pc' = pc
                  else pmap s player pc' = Some (x', y'))"
    proof (cases "pc' = pc")
      case True
      then show ?thesis using ne pc by (auto simp: p1 m)
    next
      case False
      have "pmap s player pc' \<noteq> Some (x, y)"
        using A [OF r, of player pc'] B False pl by auto
      moreover have "pmap s player pc' \<noteq> Some (x2, y2)"
        using A [OF r2, of player pc'] T [of player pc'] pl by auto
      ultimately show ?thesis using False by (auto simp: p1)
    qed
  qed
  have opp: "\<And>pc' x' y'. in_range x' y' \<Longrightarrow>
               (pmap s' (1 - player) pc' = Some (x', y')) =
                 (if (x', y') = (x, y) then False
                  else if (x', y') = (x2, y2) then False
                  else pmap s (1 - player) pc' = Some (x', y'))"
  proof -
    fix pc' x' y' assume r': "in_range x' y'"
    have op: "1 - player = 0 \<or> 1 - player = 1" "1 - player \<noteq> player" using pl by auto
    have n1: "pmap s (1 - player) pc' \<noteq> Some (x, y)"
      using A [OF r, of "1 - player" pc'] B op by auto
    show "(pmap s' (1 - player) pc' = Some (x', y')) =
                 (if (x', y') = (x, y) then False
                  else if (x', y') = (x2, y2) then False
                  else pmap s (1 - player) pc' = Some (x', y'))"
    proof (cases ?t)
      case None
      have "pmap s (1 - player) pc' \<noteq> Some (x2, y2)"
      proof
        assume "pmap s (1 - player) pc' = Some (x2, y2)"
        with A [OF r2, of "1 - player" pc'] op(1)
        have "cell ?b x2 y2 = Some (1 - player, pc')" by blast
        with None show False by simp
      qed
      then show ?thesis using n1 None by (auto simp: p2)
    next
      case (Some q)
      obtain pl2 pc2 where q: "q = (pl2, pc2)" by (cases q)
      from T [of pl2 pc2] Some q have t: "pmap s (1 - player) pc2 = Some (x2, y2)" by simp
      have u: "pc' = pc2" if "pmap s (1 - player) pc' = Some (x2, y2)"
      proof -
        from that A [OF r2, of "1 - player" pc'] op(1)
        have "cell ?b x2 y2 = Some (1 - player, pc')" by blast
        with Some q show ?thesis by simp
      qed
      have p2': "pmap s' (1 - player) = (pmap s (1 - player))(pc2 := None)"
        using Some q by (simp add: p2)
      show ?thesis
      proof (cases "pc' = pc2")
        case True
        then show ?thesis using t by (simp add: p2') blast
      next
        case False
        then have "pmap s (1 - player) pc' \<noteq> Some (x2, y2)" using u by blast
        then show ?thesis using False n1 by (simp add: p2')
      qed
    qed
  qed
  show ?thesis
    unfolding views_agree_def
  proof (intro allI impI)
    fix x' y' pl' pc' assume r': "in_range x' y'"
    show "(cell (board s') x' y' = Some (pl', pc')) =
            ((pl' = 0 \<or> pl' = 1) \<and> pmap s' pl' pc' = Some (x', y'))"
    proof (cases "pl' = player")
      case True
      then show ?thesis
        using c' [OF r'] own [OF r', of pc'] A [OF r', of player pc'] pl by auto
    next
      case False
      show ?thesis
      proof (cases "pl' = 1 - player")
        case True
        then show ?thesis
          using c' [OF r'] opp [OF r', of pc'] A [OF r', of "1 - player" pc'] pl T by auto
      next
        case False
        then have "\<not> (pl' = 0 \<or> pl' = 1)" using \<open>pl' \<noteq> player\<close> pl by auto
        then show ?thesis
          using c' [OF r'] A [OF r', of pl' pc'] pl by auto
      qed
    qed
  qed
qed

lemma moved_pieces_placed:
  assumes inv: "game_inv s" and pl: "player = 0 \<or> player = 1" and lg: "legal s player m"
    and pc: "pmap s player pc = Some (fst m)" and mv: "moved s player pc m s'"
  shows "pieces_placed s'"
proof -
  obtain x y x2 y2 where m: "m = ((x, y), (x2, y2))" by (cases m) auto
  let ?t = "cell (board s) x2 y2"
  have pp: "pieces_placed s" using inv by (auto simp: game_inv_def)
  have P: "\<And>pl' pc' x' y'. pl' = 0 \<or> pl' = 1 \<Longrightarrow> pmap s pl' pc' = Some (x', y') \<Longrightarrow>
             in_range x' y' \<and> 0 \<le> pc' \<and> pc' \<le> 7 \<and> ((x', y') \<in> set ponds \<longrightarrow> pc' = rat)"
    using pp unfolding pieces_placed_def by blast
  have r2: "in_range x2 y2" using legal_target(1) [OF inv pl lg] by (simp add: m)
  from lg obtain pc0 where "pmap s player pc0 = Some (x, y)" "(x2, y2) \<in> set ponds \<longrightarrow> pc0 = rat"
    by (auto simp: legal_def m)
  moreover from this(1) pc have "pc0 = pc"
    using rank_unique [OF inv pl, of pc0 "(x, y)" pc] by (simp add: m)
  ultimately have pond: "(x2, y2) \<in> set ponds \<longrightarrow> pc = rat" by simp
  have rk: "0 \<le> pc \<and> pc \<le> 7" using P [OF pl, of pc x y] pc by (simp add: m)
  have p1: "pmap s' player = (pmap s player)(pc \<mapsto> (x2, y2))"
    and p2: "pmap s' (1 - player) =
               (case ?t of None \<Rightarrow> pmap s (1 - player) | Some q \<Rightarrow> (pmap s (1 - player))(snd q := None))"
    using mv by (simp_all add: moved_def m Let_def)
  show ?thesis
    unfolding pieces_placed_def
  proof (intro allI impI)
    fix pl' pc' x' y'
    assume v: "pl' = 0 \<or> pl' = 1" and e: "pmap s' pl' pc' = Some (x', y')"
    show "in_range x' y' \<and> 0 \<le> pc' \<and> pc' \<le> 7 \<and> ((x', y') \<in> set ponds \<longrightarrow> pc' = rat)"
    proof (cases "pl' = player")
      case True
      show ?thesis
      proof (cases "pc' = pc")
        case True
        then show ?thesis using e \<open>pl' = player\<close> r2 pond rk by (auto simp: p1)
      next
        case False
        then have "pmap s player pc' = Some (x', y')" using e \<open>pl' = player\<close> by (simp add: p1)
        from P [OF pl this] show ?thesis .
      qed
    next
      case False
      then have o: "pl' = 1 - player" using v pl by auto
      have "pmap s (1 - player) pc' = Some (x', y')"
        using e o by (auto simp: p2 split: option.splits if_splits)
      moreover have "1 - player = 0 \<or> 1 - player = 1" using pl by auto
      ultimately show ?thesis using P by blast
    qed
  qed
qed

lemma moved_inv:
  assumes "game_inv s" and "player = 0 \<or> player = 1" and "legal s player m"
    and "pmap s player pc = Some (fst m)" and "moved s player pc m s'"
  shows "game_inv s'"
proof -
  have "board_ok (board s')"
    using assms(1,5) by (simp add: moved_def Let_def game_inv_def board_ok_put)
  moreover have "distinct (map fst (pdict_of s' 0))" "distinct (map fst (pdict_of s' 1))"
    using assms(5) by (simp_all add: moved_def Let_def)
  ultimately show ?thesis
    using moved_views_agree [OF assms] moved_pieces_placed [OF assms]
    by (simp add: game_inv_def)
qed

section \<open>Undoing a move\<close>

lemma same_position_refl [simp]: "same_position s s"
  by (simp add: same_position_def)

lemma same_position_sym: "same_position s t \<Longrightarrow> same_position t s"
  by (simp add: same_position_def)

lemma same_position_trans: "same_position s t \<Longrightarrow> same_position t u \<Longrightarrow> same_position s u"
  by (simp add: same_position_def)

lemma pmap_same: "same_position s t \<Longrightarrow> pl = 0 \<or> pl = 1 \<Longrightarrow> pmap s pl = pmap t pl"
  by (auto simp: same_position_def)

lemma legal_cong:
  "same_position s t \<Longrightarrow> player = 0 \<or> player = 1 \<Longrightarrow> legal s player m = legal t player m"
  by (auto simp: legal_def same_position_def)

lemma game_inv_cong:
  assumes "game_inv s" and "same_position t s"
    and "distinct (map fst (pdict_of t 0))" and "distinct (map fst (pdict_of t 1))"
  shows "game_inv t"
proof -
  have b: "board t = board s" and p: "pmap t 0 = pmap s 0" "pmap t 1 = pmap s 1"
    using assms(2) by (simp_all add: same_position_def)
  have pa: "\<And>pl. pl = 0 \<or> pl = 1 \<Longrightarrow> pmap t pl = pmap s pl" using p by auto
  have "views_agree t"
    using assms(1) unfolding game_inv_def views_agree_def b by (metis pa)
  moreover have "pieces_placed t"
    using assms(1) unfolding game_inv_def pieces_placed_def by (metis pa)
  ultimately show ?thesis using assms(1,3,4) b by (simp add: game_inv_def)
qed

lemma game_inv_winner [simp]: "game_inv (s\<lparr>winner := w\<rparr>) = game_inv s"
  by (simp add: game_inv_def views_agree_def pieces_placed_def)

lemma game_inv_curplayer [simp]: "game_inv (s\<lparr>curplayer := c\<rparr>) = game_inv s"
  by (simp add: game_inv_def views_agree_def pieces_placed_def)

lemma same_position_winner [simp]:
  "same_position (s\<lparr>winner := w\<rparr>) t = same_position s t"
  "same_position s (t\<lparr>winner := w\<rparr>) = same_position s t"
  by (simp_all add: same_position_def)

lemma same_position_curplayer [simp]:
  "same_position (s\<lparr>curplayer := c\<rparr>) t = same_position s t"
  "same_position s (t\<lparr>curplayer := c\<rparr>) = same_position s t"
  by (simp_all add: same_position_def)

lemma legal_curplayer [simp]: "legal (s\<lparr>curplayer := c\<rparr>) player m = legal s player m"
  by (simp add: legal_def)

lemma put_restore:
  assumes "board_ok b" and "in_range x y" and "in_range x2 y2" and "(x2, y2) \<noteq> (x, y)"
  shows "put (put (put (put b x2 y2 v) x y None) x y (cell b x y)) x2 y2 (cell b x2 y2) = b"
proof (rule board_ext)
  show "board_ok (put (put (put (put b x2 y2 v) x y None) x y (cell b x y)) x2 y2 (cell b x2 y2))"
    using assms(1) by (simp add: board_ok_put)
  show "board_ok b" by (rule assms(1))
  fix x' y' assume "in_range x' y'"
  then show "cell (put (put (put (put b x2 y2 v) x y None) x y (cell b x y)) x2 y2
                    (cell b x2 y2)) x' y' = cell b x' y'"
    using assms by (auto simp: cell_put board_ok_put)
qed

lemma undo_restores:
  assumes inv: "game_inv s" and pl: "player = 0 \<or> player = 1" and lg: "legal s player m"
    and af: "affect s m = Inr (s1, u)"
    and sp: "same_position s2 s1" and inv2: "game_inv s2"
  shows "\<exists>s3. undo_everything s2 u = Inr s3 \<and> same_position s3 s \<and> game_inv s3
              \<and> curplayer s3 = curplayer s2 \<and> winner s3 = winner s2"
proof -
  obtain x y x2 y2 where m: "m = ((x, y), (x2, y2))" by (cases m) auto
  let ?b = "board s"
  let ?t = "cell ?b x2 y2"
  from shift_piece_legal [OF inv pl lg] obtain s1' pc where
    sh: "shift_piece s m = Inr (s1', (player, pc), ?t)" and pc: "pmap s player pc = Some (x, y)"
    and mv: "moved s player pc m s1'" by (auto simp: m)
  from af sh have s1: "s1' = s1"
    and u: "u = \<lparr>sv_from = (x, y), sv_to = (x2, y2), sv_mover = (player, pc),
                 sv_taken = (case ?t of None \<Rightarrow> (0, 0) | Some q \<Rightarrow> q),
                 sv_p_c = peace_counter s,
                 sv_zbicie = (case ?t of None \<Rightarrow> 0 | Some q \<Rightarrow> 1)\<rparr>"
    by (simp_all add: affect_def m)
  have ok: "board_ok ?b" using inv by (simp add: game_inv_def)
  have ok2: "board_ok (board s2)" and d2: "distinct (map fst (pdict_of s2 0))"
    "distinct (map fst (pdict_of s2 1))" using inv2 by (simp_all add: game_inv_def)
  from legal_mover [OF inv pl lg] obtain pc0 where
    "pmap s player pc0 = Some (x, y)" "in_range x y" "cell ?b x y = Some (player, pc0)"
    by (auto simp: m)
  with rank_unique [OF inv pl pc, of pc0] have r: "in_range x y"
    and B: "cell ?b x y = Some (player, pc)" by auto
  have r2: "in_range x2 y2" and ne: "(x2, y2) \<noteq> (x, y)"
    using legal_target(1,2) [OF inv pl lg] by (auto simp: m)
  have b2: "board s2 = put (put ?b x2 y2 (Some (player, pc))) x y None"
    and q1: "pmap s2 player = (pmap s player)(pc \<mapsto> (x2, y2))"
    and q2: "pmap s2 (1 - player) =
               (case ?t of None \<Rightarrow> pmap s (1 - player) | Some q \<Rightarrow> (pmap s (1 - player))(snd q := None))"
    and c2: "peace_counter s2 = (if ?t = None then peace_counter s + 1 else 0)"
    using mv sp pl unfolding s1 by (auto simp: moved_def m Let_def same_position_def)
  have op: "1 - player = 0 \<or> 1 - player = 1" using pl by auto
  have restore: "put (put (board s2) x y (Some (player, pc))) x2 y2 ?t = ?b"
    using put_restore [OF ok r r2 ne, of "Some (player, pc)"] B by (simp add: b2)
  have own: "(pmap s2 player)(pc \<mapsto> (x, y)) = pmap s player"
    using pc by (simp add: q1 fun_upd_idem)
  show ?thesis
  proof (cases ?t)
    case None
    let ?s3 = "pieces_put
                 (s2\<lparr>peace_counter := peace_counter s2 - 1,
                     board := put (put (board s2) x y (Some (player, pc))) x2 y2 None\<rparr>)
                 player (AList.update pc (x, y) (pdict_of s2 player))"
    have e: "undo_everything s2 u = Inr ?s3"
      using None pl ok2 r r2
      by (simp add: undo_everything_def u Let_def board_set_in board_ok_put pieces_set_ok)
    have "same_position ?s3 s"
      using None restore own q2 c2 pl
      by (auto simp: same_position_def pmap_pieces_put AList.update_conv' pmap_def [symmetric])
    moreover have "distinct (map fst (pdict_of ?s3 0))" "distinct (map fst (pdict_of ?s3 1))"
      using d2 pl by (auto simp: pdict_of_pieces_put AList.distinct_update)
    ultimately show ?thesis using e game_inv_cong [OF inv] by auto
  next
    case (Some q)
    obtain pl2 pc2 where q: "q = (pl2, pc2)" by (cases q)
    from legal_target(3) [OF inv pl lg, of pl2 pc2] Some q
    have t: "pl2 = 1 - player" "pmap s (1 - player) pc2 = Some (x2, y2)" by (auto simp: m)
    let ?s1 = "(pieces_put s2 (1 - player) (AList.update pc2 (x2, y2) (pdict_of s2 (1 - player))))
               \<lparr>peace_counter := peace_counter s,
                board := put (put (board s2) x y (Some (player, pc))) x2 y2 (Some (1 - player, pc2))\<rparr>"
    let ?s3 = "pieces_put ?s1 player (AList.update pc (x, y) (pdict_of ?s1 player))"
    have e: "undo_everything s2 u = Inr ?s3"
      using Some q t(1) pl op ok2 r r2
      by (simp add: undo_everything_def u Let_def board_set_in board_ok_put pieces_set_ok)
    have opp: "(pmap s2 (1 - player))(pc2 \<mapsto> (x2, y2)) = pmap s (1 - player)"
      using Some q t(2) by (simp add: q2 fun_upd_idem)
    have "same_position ?s3 s"
      using Some q t(1) restore own opp pl
      by (auto simp: same_position_def pmap_pieces_put AList.update_conv' pmap_def [symmetric]
          pdict_of_pieces_put)
    moreover have "distinct (map fst (pdict_of ?s3 0))" "distinct (map fst (pdict_of ?s3 1))"
      using d2 pl by (auto simp: pdict_of_pieces_put AList.distinct_update)
    ultimately show ?thesis using e game_inv_cong [OF inv] by auto
  qed
qed

section \<open>Every generated move is legal\<close>

lemma collect_all:
  assumes "\<And>x. x \<in> set xs \<Longrightarrow> \<exists>ys. f x = Inr ys \<and> (\<forall>m \<in> set ys. P m)"
  shows "\<exists>zs. collect f xs = Inr zs \<and> (\<forall>m \<in> set zs. P m)"
  using assms
proof (induction xs)
  case Nil
  show ?case by simp
next
  case (Cons x xs)
  from Cons.prems [of x] obtain ys where ys: "f x = Inr ys" "\<forall>m \<in> set ys. P m" by auto
  from Cons.IH Cons.prems obtain zs where zs: "collect f xs = Inr zs" "\<forall>m \<in> set zs. P m"
    by auto
  show ?case using ys zs by auto
qed

lemma move_target_legal:
  assumes inv: "game_inv s" and pl: "player = 0 \<or> player = 1"
    and p: "pmap s player p = Some pos"
    and r2: "in_range (fst pos2) (snd pos2)" and ne: "pos2 \<noteq> pos"
    and pond: "pos2 \<in> set ponds \<longrightarrow> p = rat"
  shows "\<exists>ys. move_target s player p pos pos2 = Inr ys \<and> (\<forall>m \<in> set ys. legal s player m)"
proof -
  have ok: "board_ok (board s)" using inv by (simp add: game_inv_def)
  have g: "board_get (board s) (fst pos2) (snd pos2) = Inr (cell (board s) (fst pos2) (snd pos2))"
    by (rule board_get_in [OF ok r2])
  show ?thesis
  proof (cases "cell (board s) (fst pos2) (snd pos2)")
    case None
    then have "move_target s player p pos pos2 = Inr [(pos, pos2)]"
      using g by (simp add: move_target_def)
    moreover have "legal s player (pos, pos2)"
      using p r2 ne pond None unfolding legal_def by auto
    ultimately show ?thesis by simp
  next
    case (Some q)
    obtain pl2 piece2 where q: "q = (pl2, piece2)" by (cases q)
    show ?thesis
    proof (cases "pl2 \<noteq> player \<and> can_beat p piece2 pos pos2")
      case True
      then have "move_target s player p pos pos2 = Inr [(pos, pos2)]"
        using g Some q by (simp add: move_target_def)
      moreover have "legal s player (pos, pos2)"
        using p r2 ne pond Some q True unfolding legal_def by auto
      ultimately show ?thesis by simp
    next
      case False
      then have "move_target s player p pos pos2 = Inr []"
        using g Some q by (auto simp: move_target_def)
      then show ?thesis by simp
    qed
  qed
qed

lemma leap_lands:
  assumes "in_range x y" and "(x, y) \<notin> set ponds" and "(x + dx, y + dy) \<in> set ponds"
    and "(dx, dy) \<in> set dirs"
  shows "in_range (x + (if dx \<noteq> 0 then dx * 3 else dx)) (y + (if dy \<noteq> 0 then dy * 4 else dy))"
    and "(x + (if dx \<noteq> 0 then dx * 3 else dx), y + (if dy \<noteq> 0 then dy * 4 else dy)) \<notin> set ponds"
    and "(x + (if dx \<noteq> 0 then dx * 3 else dx), y + (if dy \<noteq> 0 then dy * 4 else dy)) \<noteq> (x, y)"
proof -
  from assms(4) consider "dx = 0 \<and> dy = 1" | "dx = 1 \<and> dy = 0" | "dx = -1 \<and> dy = 0"
    | "dx = 0 \<and> dy = -1" by (auto simp: dirs_def)
  then have "in_range (x + (if dx \<noteq> 0 then dx * 3 else dx)) (y + (if dy \<noteq> 0 then dy * 4 else dy))
     \<and> (x + (if dx \<noteq> 0 then dx * 3 else dx), y + (if dy \<noteq> 0 then dy * 4 else dy)) \<notin> set ponds
     \<and> (x + (if dx \<noteq> 0 then dx * 3 else dx), y + (if dy \<noteq> 0 then dy * 4 else dy)) \<noteq> (x, y)"
  proof cases
    case 1
    then have "x \<in> {1, 2, 4, 5}" "y = 2" using assms(1-3) by (auto simp: in_ponds in_range_def)
    then show ?thesis using 1 by (auto simp: in_ponds in_range_def)
  next
    case 2
    then have "y \<in> {3, 4, 5}" "x = 0 \<or> x = 3" using assms(1-3) by (auto simp: in_ponds in_range_def)
    then show ?thesis using 2 by (auto simp: in_ponds in_range_def)
  next
    case 3
    then have "y \<in> {3, 4, 5}" "x = 3 \<or> x = 6" using assms(1-3) by (auto simp: in_ponds in_range_def)
    then show ?thesis using 3 by (auto simp: in_ponds in_range_def)
  next
    case 4
    then have "x \<in> {1, 2, 4, 5}" "y = 6" using assms(1-3) by (auto simp: in_ponds in_range_def)
    then show ?thesis using 4 by (auto simp: in_ponds in_range_def)
  qed
  then show "in_range (x + (if dx \<noteq> 0 then dx * 3 else dx)) (y + (if dy \<noteq> 0 then dy * 4 else dy))"
    and "(x + (if dx \<noteq> 0 then dx * 3 else dx), y + (if dy \<noteq> 0 then dy * 4 else dy)) \<notin> set ponds"
    and "(x + (if dx \<noteq> 0 then dx * 3 else dx), y + (if dy \<noteq> 0 then dy * 4 else dy)) \<noteq> (x, y)"
    by blast+
qed

lemma move_in_dir_eq:
  "move_in_dir s player p (x, y) (dx, dy) =
     (if in_range (x + dx) (y + dy) then
        (case py_index dens player of
           Inl e \<Rightarrow> Inl e
         | Inr den \<Rightarrow>
             if den = (x + dx, y + dy) then Inr []
             else if (x + dx, y + dy) \<in> set ponds then
               (if p \<notin> {rat, tiger, lion} then Inr []
                else if p = tiger \<or> p = lion then
                  (if rat_is_blocking s player (x, y) (if dx \<noteq> 0 then dx * 3 else dx)
                        (if dy \<noteq> 0 then dy * 4 else dy) then Inr []
                   else move_target s player p (x, y)
                          (x + (if dx \<noteq> 0 then dx * 3 else dx),
                           y + (if dy \<noteq> 0 then dy * 4 else dy)))
                else move_target s player p (x, y) (x + dx, y + dy))
             else move_target s player p (x, y) (x + dx, y + dy))
      else Inr [])"
  unfolding move_in_dir_def Let_def in_range_def MX_def MY_def fst_conv snd_conv
  by (rule refl)

lemma move_in_dir_legal:
  assumes inv: "game_inv s" and pl: "player = 0 \<or> player = 1"
    and p: "pmap s player p = Some pos" and d: "d \<in> set dirs"
  shows "\<exists>ys. move_in_dir s player p pos d = Inr ys \<and> (\<forall>m \<in> set ys. legal s player m)"
proof -
  obtain x y where pos: "pos = (x, y)" by (cases pos)
  obtain dx dy where dd: "d = (dx, dy)" by (cases d)
  have pp: "pieces_placed s" using inv by (simp add: game_inv_def)
  from pp p pl have r: "in_range x y" and pr: "(x, y) \<in> set ponds \<longrightarrow> p = rat"
    unfolding pieces_placed_def pos by blast+
  have ne: "(x + dx, y + dy) \<noteq> (x, y)" using d by (auto simp: dd dirs_def)
  obtain den where den: "py_index dens player = Inr den"
    using py_index_dens [OF pl] by blast
  let ?dx = "if dx \<noteq> 0 then dx * 3 else dx"
  let ?dy = "if dy \<noteq> 0 then dy * 4 else dy"
  have step: "\<exists>ys. move_target s player p pos (x + dx, y + dy) = Inr ys
                   \<and> (\<forall>m \<in> set ys. legal s player m)"
    if "in_range (x + dx) (y + dy)" and "(x + dx, y + dy) \<in> set ponds \<longrightarrow> p = rat"
    using move_target_legal [OF inv pl p, of "(x + dx, y + dy)"] that ne by (simp add: pos)
  have leap: "\<exists>ys. move_target s player p pos (x + ?dx, y + ?dy) = Inr ys
                   \<and> (\<forall>m \<in> set ys. legal s player m)"
    if "(x + dx, y + dy) \<in> set ponds" and "p \<noteq> rat"
  proof -
    have np: "(x, y) \<notin> set ponds" using pr that(2) by blast
    have dxy: "(dx, dy) \<in> set dirs" using d dd by simp
    note ll = leap_lands [OF r np that(1) dxy]
    show ?thesis
      using move_target_legal [OF inv pl p, of "(x + ?dx, y + ?dy)"] ll by (simp add: pos)
  qed
  have e: "move_in_dir s player p pos d = Inr []
           \<or> move_in_dir s player p pos d = move_target s player p pos (x + dx, y + dy)
               \<and> in_range (x + dx) (y + dy) \<and> ((x + dx, y + dy) \<in> set ponds \<longrightarrow> p = rat)
           \<or> move_in_dir s player p pos d = move_target s player p pos (x + ?dx, y + ?dy)
               \<and> (x + dx, y + dy) \<in> set ponds \<and> p \<noteq> rat"
    unfolding pos dd move_in_dir_eq den
    by (simp add: rank_defs)
  then show ?thesis
  proof (elim disjE conjE)
    assume "move_in_dir s player p pos d = Inr []"
    then show ?thesis by simp
  next
    assume "move_in_dir s player p pos d = move_target s player p pos (x + dx, y + dy)"
      "in_range (x + dx) (y + dy)" "(x + dx, y + dy) \<in> set ponds \<longrightarrow> p = rat"
    then show ?thesis using step by simp
  next
    assume "move_in_dir s player p pos d = move_target s player p pos (x + ?dx, y + ?dy)"
      "(x + dx, y + dy) \<in> set ponds" "p \<noteq> rat"
    then show ?thesis using leap by simp
  qed
qed

lemma map_of_distinct_mem:
  "distinct (map fst d) \<Longrightarrow> (k, v) \<in> set d \<Longrightarrow> map_of d k = Some v"
  by simp

lemma moves_legal:
  assumes inv: "game_inv s" and pl: "player = 0 \<or> player = 1"
  shows "\<exists>ms. moves s player = Inr ms \<and> (\<forall>m \<in> set ms. legal s player m)"
proof -
  have dist: "distinct (map fst (pdict_of s player))"
    using inv pl by (auto simp: game_inv_def)
  have "\<exists>zs. collect (\<lambda>(p, pos). collect (move_in_dir s player p pos) dirs) (pdict_of s player)
               = Inr zs \<and> (\<forall>m \<in> set zs. legal s player m)"
  proof (rule collect_all)
    fix e assume e: "e \<in> set (pdict_of s player)"
    obtain p pos where pe: "e = (p, pos)" by (cases e)
    have pm: "pmap s player p = Some pos"
      using map_of_distinct_mem [OF dist] e by (simp add: pe pmap_def)
    have "\<exists>ys. collect (move_in_dir s player p pos) dirs = Inr ys
               \<and> (\<forall>m \<in> set ys. legal s player m)"
      by (rule collect_all) (rule move_in_dir_legal [OF inv pl pm])
    then show "\<exists>ys. (case e of (p, pos) \<Rightarrow> collect (move_in_dir s player p pos) dirs) = Inr ys
               \<and> (\<forall>m \<in> set ys. legal s player m)" by (simp add: pe)
  qed
  then show ?thesis using pl by (simp add: moves_def pieces_get_ok)
qed

section \<open>The termination test on invariant states\<close>

lemma pieces_comparison_loop_cong:
  "pieces s = pieces t \<Longrightarrow> pieces_comparison_loop s is = pieces_comparison_loop t is"
  by (induction "is") (simp_all add: pdict_of_def)

lemma pieces_comparison_loop_range:
  "pieces_comparison_loop s is = Some r \<Longrightarrow> r = 0 \<or> r = 1"
proof (induction "is")
  case Nil
  then show ?case by simp
next
  case (Cons i "is")
  show ?case
  proof (cases "length (filter (\<lambda>p. dict_has (pdict_of s p) i) [0, 1]) = 1")
    case True
    then have "hd (filter (\<lambda>p. dict_has (pdict_of s p) i) [0, 1]) = r"
      using Cons.prems by (simp add: Let_def)
    then show ?thesis using True by (auto split: if_splits)
  next
    case False
    then have "pieces_comparison_loop s is = Some r" using Cons.prems by (simp add: Let_def)
    then show ?thesis by (rule Cons.IH)
  qed
qed

lemma passivity_winner_range: "passivity_winner s = 0 \<or> passivity_winner s = 1"
proof (cases "pieces_comparison s")
  case None
  then show ?thesis by (simp add: passivity_winner_def)
next
  case (Some r)
  then have "r = 0 \<or> r = 1"
    unfolding pieces_comparison_def by (rule pieces_comparison_loop_range)
  then show ?thesis using Some by (simp add: passivity_winner_def)
qed

lemma passivity_winner_winner [simp]: "passivity_winner (s\<lparr>winner := w\<rparr>) = passivity_winner s"
  using pieces_comparison_loop_cong [of "s\<lparr>winner := w\<rparr>" s "[7, 6, 5, 4, 3, 2, 1, 0]"]
  by (simp add: passivity_winner_def pieces_comparison_def)

lemma victory_unfold:
  assumes pl: "player = 0 \<or> player = 1" and ok: "board_ok (board s)"
  shows "victory s player =
     (if pdict_of s (1 - player) = []
          \<or> cell (board s) 3 (if player = 0 then 0 else 8) \<noteq> None
      then Inr (True, s\<lparr>winner := Some player\<rparr>)
      else if peace_counter s \<ge> 30
        then Inr (True, s\<lparr>winner := Some (passivity_winner s)\<rparr>)
        else Inr (False, s))"
proof -
  have op: "1 - player = 0 \<or> 1 - player = 1" using pl by auto
  have den: "py_index dens (1 - player) = Inr (3, if player = 0 then 0 else 8)"
    using py_index_dens [OF op] pl by auto
  have g: "board_get (board s) 3 (if player = 0 then 0 else 8)
             = Inr (cell (board s) 3 (if player = 0 then 0 else 8))"
    using ok by (simp add: board_get_in in_range_def)
  have pg: "pieces_get s (1 - player) = Inr (pdict_of s (1 - player))"
    using op by (rule pieces_get_ok)
  show ?thesis
    unfolding victory_def Let_def pg den
    using g
    by (simp add: MAXIMAL_PASSIVE_def passivity_winner_def split: option.splits)
qed

lemma victory_cases:
  assumes inv: "game_inv s" and pl: "player = 0 \<or> player = 1"
  shows "(\<exists>w. (w = 0 \<or> w = 1) \<and> victory s player = Inr (True, s\<lparr>winner := Some w\<rparr>))
           \<or> victory s player = Inr (False, s)"
proof -
  have ok: "board_ok (board s)" using inv by (simp add: game_inv_def)
  show ?thesis
    unfolding victory_unfold [OF pl ok]
    using pl passivity_winner_range [of s] by auto
qed

lemma victory_again:
  assumes ok: "board_ok (board s)" and pl: "player = 0 \<or> player = 1"
    and v: "victory s player = Inr (True, s1)"
  shows "victory s1 player = Inr (True, s1)"
proof -
  from v obtain w where s1: "s1 = s\<lparr>winner := Some w\<rparr>"
    unfolding victory_unfold [OF pl ok] by (auto split: if_splits)
  have ok1: "board_ok (board s1)" using ok by (simp add: s1)
  show ?thesis
    using v unfolding victory_unfold [OF pl ok] victory_unfold [OF pl ok1]
    by (auto simp: s1 split: if_splits)
qed

section \<open>The search leaves the position as it found it\<close>

declare max_alpha_beta.simps [simp del] max_loop.simps [simp del]
  min_alpha_beta.simps [simp del] min_loop.simps [simp del]

lemma restored_Inr: "same_position s' s \<Longrightarrow> game_inv s' \<Longrightarrow> restored (Inr (r, s')) s"
  unfolding restored_def by blast

lemma restored_trans:
  "restored res s3 \<Longrightarrow> same_position s3 s \<Longrightarrow> restored res s"
  unfolding restored_def by (blast intro: same_position_trans)

lemma affect_legal:
  assumes "game_inv s" and "player = 0 \<or> player = 1" and "legal s player m"
  shows "\<exists>s1 u. affect s m = Inr (s1, u) \<and> game_inv s1"
proof -
  from shift_piece_legal [OF assms] obtain s' pc where
    sh: "shift_piece s m = Inr (s', (player, pc), cell (board s) (fst (snd m)) (snd (snd m)))"
    and pc: "pmap s player pc = Some (fst m)" and mv: "moved s player pc m s'" by blast
  from moved_inv [OF assms pc mv] have "game_inv s'" .
  then show ?thesis using sh by (simp add: affect_def)
qed

lemma utility_terminal:
  assumes ok: "board_ok (board s)" and pl: "player = 0 \<or> player = 1"
    and v: "victory s player = Inr (True, s1)"
  shows "utility s1 player = Inr (Some (NegInf, Some 0, Some 0, Some 0, Some 0), s1)"
proof -
  have "victory s1 player = Inr (True, s1)" by (rule victory_again [OF ok pl v])
  then show ?thesis by (simp add: utility_def bool_int_def)
qed

lemma heur_ok: "game_inv s \<Longrightarrow> \<exists>h. heur s = Inr h"
proof -
  assume inv: "game_inv s"
  from moves_legal [OF inv, of 1] obtain m1 where "moves s 1 = Inr m1" by auto
  moreover from moves_legal [OF inv, of 0] obtain m0 where "moves s 0 = Inr m0" by auto
  ultimately show ?thesis by (simp add: heur_def Let_def)
qed

lemma node_step:
  assumes inv: "game_inv s" and pl: "player = 0 \<or> player = 1"
  obtains (terminal) ms s1 where "moves s player = Inr ms" "victory s player = Inr (True, s1)"
      "utility s1 player = Inr (Some (NegInf, Some 0, Some 0, Some 0, Some 0), s1)"
      "same_position s1 s" "game_inv s1"
    | (open_node) ms where "moves s player = Inr ms" "victory s player = Inr (False, s)"
      "\<forall>m \<in> set ms. legal s player m"
proof -
  from moves_legal [OF inv pl] obtain ms where ms: "moves s player = Inr ms"
    "\<forall>m \<in> set ms. legal s player m" by blast
  have ok: "board_ok (board s)" using inv by (simp add: game_inv_def)
  from victory_cases [OF inv pl] consider
    (a) w where "victory s player = Inr (True, s\<lparr>winner := Some w\<rparr>)"
    | (b) "victory s player = Inr (False, s)" by blast
  then show thesis
  proof cases
    case a
    from utility_terminal [OF ok pl a] terminal [OF ms(1) a] inv show thesis by simp
  next
    case b
    with open_node ms show thesis by blast
  qed
qed

lemma map_Some_not_None: "map Some ms \<noteq> [None]"
  by (cases ms) auto

lemma search_restores:
  "game_inv s \<longrightarrow> restored (max_alpha_beta s alpha beta depth) s"
  "game_inv s \<longrightarrow> (\<forall>it \<in> set its. \<exists>m. it = Some m \<and> legal s 0 m) \<longrightarrow>
      restored (max_loop s its alpha beta depth best px) s"
  "game_inv s \<longrightarrow> restored (min_alpha_beta s alpha beta depth) s"
  "game_inv s \<longrightarrow> (\<forall>it \<in> set its. \<exists>m. it = Some m \<and> legal s 1 m) \<longrightarrow>
      restored (min_loop s its alpha beta depth best px) s"
proof (induction s alpha beta depth and s its alpha beta depth best px
         and s alpha beta depth and s its alpha beta depth best px
       rule: max_alpha_beta_max_loop_min_alpha_beta_min_loop.induct)
  case (1 s alpha beta depth)
  show ?case
  proof
    assume inv: "game_inv s"
    have pl: "(0::int) = 0 \<or> (0::int) = 1" by simp
    from inv pl show "restored (max_alpha_beta s alpha beta depth) s"
    proof (cases rule: node_step)
      case (terminal ms s1)
      then show ?thesis
        by (subst max_alpha_beta.simps) (simp add: restored_def)
    next
      case (open_node ms)
      show ?thesis
      proof (cases "cut_off_tests depth")
        case True
        from heur_ok [OF inv] obtain h where "heur s = Inr h" ..
        then show ?thesis using open_node True inv
          by (subst max_alpha_beta.simps) (simp add: restored_def)
      next
        case False
        have "restored (max_loop s (map Some ms) alpha beta depth NegInf no_coords) s"
          using "1.IH"(1) [OF open_node(1,2) refl _ False map_Some_not_None] inv open_node(3)
          by auto
        then show ?thesis using open_node False
          by (subst max_alpha_beta.simps) (simp add: map_Some_not_None)
      qed
    qed
  qed
next
  case (2 s alpha beta depth best px)
  show ?case unfolding max_loop.simps by (simp add: restored_Inr)
next
  case (3 s it rest alpha beta depth best px)
  show ?case
  proof (intro impI)
    assume inv: "game_inv s"
      and lg: "\<forall>it \<in> set (it # rest). \<exists>m. it = Some m \<and> legal s 0 m"
    have pl: "(0::int) = 0 \<or> (0::int) = 1" by simp
    from lg obtain m where it: "it = Some m" and lm: "legal s 0 m" by auto
    from affect_legal [OF inv pl lm] obtain s1 u where
      af: "affect s m = Inr (s1, u)" and inv1: "game_inv s1" by blast
    from "3.IH"(1) [OF it af refl] inv1
    obtain r s2 where mn: "min_alpha_beta s1 alpha beta (depth + 1) = Inr (r, s2)"
      and sp2: "same_position s2 s1" and inv2: "game_inv s2"
      unfolding restored_def by blast
    from undo_restores [OF inv pl lm af sp2 inv2] obtain s3 where
      un: "undo_everything s2 u = Inr s3" and sp3: "same_position s3 s" and inv3: "game_inv s3"
      by blast
    let ?best1 = "if val_less best (fst r) then fst r else best"
    let ?px1 = "if val_less best (fst r) then move_coords m else px"
    show "restored (max_loop s (it # rest) alpha beta depth best px) s"
    proof (cases "val_le beta ?best1")
      case True
      have e: "max_loop s (it # rest) alpha beta depth best px = Inr ((?best1, ?px1), s3)"
        using it af mn un True by (subst max_loop.simps) (simp add: Let_def)
      show ?thesis unfolding e by (rule restored_Inr [OF sp3 inv3])
    next
      case False
      have lg3: "\<forall>it \<in> set rest. \<exists>m. it = Some m \<and> legal s3 0 m"
        using lg legal_cong [OF sp3 pl] by auto
      have "restored (max_loop s3 rest (if val_less alpha ?best1 then ?best1 else alpha)
                        beta depth ?best1 ?px1) s3"
        using "3.IH"(2) [OF it af refl mn refl refl refl un False] inv3 lg3 by blast
      then have "restored (max_loop s3 rest (if val_less alpha ?best1 then ?best1 else alpha)
                        beta depth ?best1 ?px1) s"
        using sp3 by (rule restored_trans)
      then show ?thesis using it af mn un False
        by (subst max_loop.simps) (simp add: Let_def)
    qed
  qed
next
  case (4 s alpha beta depth)
  show ?case
  proof
    assume inv: "game_inv s"
    have pl: "(1::int) = 0 \<or> (1::int) = 1" by simp
    from inv pl show "restored (min_alpha_beta s alpha beta depth) s"
    proof (cases rule: node_step)
      case (terminal ms s1)
      then show ?thesis
        by (subst min_alpha_beta.simps) (simp add: restored_def)
    next
      case (open_node ms)
      show ?thesis
      proof (cases "cut_off_tests depth")
        case True
        from heur_ok [OF inv] obtain h where "heur s = Inr h" ..
        then show ?thesis using open_node True inv
          by (subst min_alpha_beta.simps) (simp add: restored_def)
      next
        case False
        have "restored (min_loop s (map Some ms) alpha beta depth PosInf no_coords) s"
          using "4.IH"(1) [OF open_node(1,2) refl _ False map_Some_not_None] inv open_node(3)
          by auto
        then show ?thesis using open_node False
          by (subst min_alpha_beta.simps) (simp add: map_Some_not_None)
      qed
    qed
  qed
next
  case (5 s alpha beta depth best qx)
  show ?case unfolding min_loop.simps by (simp add: restored_Inr)
next
  case (6 s it rest alpha beta depth best qx)
  show ?case
  proof (intro impI)
    assume inv: "game_inv s"
      and lg: "\<forall>it \<in> set (it # rest). \<exists>m. it = Some m \<and> legal s 1 m"
    have pl: "(1::int) = 0 \<or> (1::int) = 1" by simp
    from lg obtain m where it: "it = Some m" and lm: "legal s 1 m" by auto
    from affect_legal [OF inv pl lm] obtain s1 u where
      af: "affect s m = Inr (s1, u)" and inv1: "game_inv s1" by blast
    from "6.IH"(1) [OF it af refl] inv1
    obtain r s2 where mn: "max_alpha_beta s1 alpha beta (depth + 1) = Inr (r, s2)"
      and sp2: "same_position s2 s1" and inv2: "game_inv s2"
      unfolding restored_def by blast
    from undo_restores [OF inv pl lm af sp2 inv2] obtain s3 where
      un: "undo_everything s2 u = Inr s3" and sp3: "same_position s3 s" and inv3: "game_inv s3"
      by blast
    let ?best1 = "if val_less (fst r) best then fst r else best"
    let ?qx1 = "if val_less (fst r) best then move_coords m else qx"
    show "restored (min_loop s (it # rest) alpha beta depth best qx) s"
    proof (cases "val_le ?best1 alpha")
      case True
      have e: "min_loop s (it # rest) alpha beta depth best qx = Inr ((?best1, ?qx1), s3)"
        using it af mn un True by (subst min_loop.simps) (simp add: Let_def)
      show ?thesis unfolding e by (rule restored_Inr [OF sp3 inv3])
    next
      case False
      have lg3: "\<forall>it \<in> set rest. \<exists>m. it = Some m \<and> legal s3 1 m"
        using lg legal_cong [OF sp3 pl] by auto
      have "restored (min_loop s3 rest alpha (if val_less ?best1 beta then ?best1 else beta)
                        depth ?best1 ?qx1) s3"
        using "6.IH"(2) [OF it af refl mn refl refl refl un False] inv3 lg3 by blast
      then have "restored (min_loop s3 rest alpha (if val_less ?best1 beta then ?best1 else beta)
                        depth ?best1 ?qx1) s"
        using sp3 by (rule restored_trans)
      then show ?thesis using it af mn un False
        by (subst min_loop.simps) (simp add: Let_def)
    qed
  qed
qed

section \<open>The start of the game and real moves\<close>

lemma in_range_lists:
  "in_range x y \<longleftrightarrow> x \<in> set [0, 1, 2, 3, 4, 5, 6] \<and> y \<in> set [0, 1, 2, 3, 4, 5, 6, 7, 8]"
  by (auto simp: in_range_def)

lemma check_inv_game_inv:
  assumes "check_inv s"
  shows "game_inv s"
proof -
  have ok: "board_ok (board s)"
    using assms by (simp add: check_inv_def board_ok_def list_all_iff)
  have d: "distinct (map fst (pdict_of s 0))" "distinct (map fst (pdict_of s 1))"
    using assms by (simp_all add: check_inv_def)
  have fw: "\<And>pl pc x y. pl = 0 \<or> pl = 1 \<Longrightarrow> pmap s pl pc = Some (x, y) \<Longrightarrow>
              in_range x y \<and> 0 \<le> pc \<and> pc \<le> 7 \<and> ((x, y) \<in> set ponds \<longrightarrow> pc = rat)
              \<and> cell (board s) x y = Some (pl, pc)"
  proof -
    fix pl pc x y assume pl: "pl = 0 \<or> pl = (1::int)" and e: "pmap s pl pc = Some (x, y)"
    from e have "(pc, (x, y)) \<in> set (pdict_of s pl)" by (simp add: pmap_def map_of_SomeD)
    moreover have "list_all (\<lambda>(pc, (x, y)).
            0 \<le> x \<and> x < 7 \<and> 0 \<le> y \<and> y < 9 \<and> 0 \<le> pc \<and> pc \<le> 7
            \<and> ((x, y) \<in> set ponds \<longrightarrow> pc = rat)
            \<and> board s ! nat y ! nat x = Some (pl, pc)) (pdict_of s pl)"
      using assms pl by (auto simp: check_inv_def)
    ultimately show "in_range x y \<and> 0 \<le> pc \<and> pc \<le> 7 \<and> ((x, y) \<in> set ponds \<longrightarrow> pc = rat)
              \<and> cell (board s) x y = Some (pl, pc)"
      by (auto simp: list_all_iff in_range_def cell_def)
  qed
  have bw: "\<And>x y pl pc. in_range x y \<Longrightarrow> cell (board s) x y = Some (pl, pc) \<Longrightarrow>
              (pl = 0 \<or> pl = 1) \<and> pmap s pl pc = Some (x, y)"
  proof -
    fix x y pl pc assume r: "in_range x y" and c: "cell (board s) x y = Some (pl, pc)"
    have "list_all (\<lambda>y. list_all (\<lambda>x.
            (case board s ! nat y ! nat x of None \<Rightarrow> True
             | Some (pl, pc) \<Rightarrow> (pl = 0 \<or> pl = 1) \<and> map_of (pdict_of s pl) pc = Some (x, y)))
            [0, 1, 2, 3, 4, 5, 6]) [0, 1, 2, 3, 4, 5, 6, 7, 8]"
      using assms by (simp add: check_inv_def)
    then have "case board s ! nat y ! nat x of None \<Rightarrow> True
             | Some (pl, pc) \<Rightarrow> (pl = 0 \<or> pl = 1) \<and> map_of (pdict_of s pl) pc = Some (x, y)"
      using r unfolding in_range_lists list_all_iff by blast
    then show "(pl = 0 \<or> pl = 1) \<and> pmap s pl pc = Some (x, y)"
      using c by (simp add: cell_def pmap_def)
  qed
  have "views_agree s" unfolding views_agree_def using fw bw by blast
  moreover have "pieces_placed s" unfolding pieces_placed_def using fw by blast
  ultimately show ?thesis using ok d by (simp add: game_inv_def)
qed

lemma check_inv_init: "check_inv init"
  by code_simp

lemma game_inv_init: "game_inv init"
  by (rule check_inv_game_inv [OF check_inv_init])

lemma moves_curplayer [simp]: "moves (s\<lparr>curplayer := c\<rparr>) player = moves s player"
proof -
  have a: "rat_is_blocking (s\<lparr>curplayer := c\<rparr>) = rat_is_blocking s"
    by (intro ext) (simp add: rat_is_blocking_def rat_is_blocking_loop_iff)
  have b: "move_target (s\<lparr>curplayer := c\<rparr>) = move_target s"
    by (intro ext) (simp add: move_target_def)
  have "move_in_dir (s\<lparr>curplayer := c\<rparr>) = move_in_dir s"
    by (intro ext) (simp only: move_in_dir_def a b)
  then show ?thesis by (simp add: moves_def pieces_get_def)
qed

lemma do_move_legal:
  assumes inv: "game_inv s" and pl: "player = 0 \<or> player = 1" and lg: "legal s player m"
  shows "\<exists>s' pc. do_move s (Some m) = Inr s' \<and> game_inv s'
            \<and> pmap s player pc = Some (fst m)
            \<and> moved (s\<lparr>curplayer := 1 - curplayer s\<rparr>) player pc m s'"
proof -
  let ?s1 = "s\<lparr>curplayer := 1 - curplayer s\<rparr>"
  have inv1: "game_inv ?s1" using inv by simp
  have lg1: "legal ?s1 player m" using lg by simp
  from shift_piece_legal [OF inv1 pl lg1] obtain s' pc where
    sh: "shift_piece ?s1 m = Inr (s', (player, pc), cell (board ?s1) (fst (snd m)) (snd (snd m)))"
    and pc: "pmap ?s1 player pc = Some (fst m)" and mv: "moved ?s1 player pc m s'" by blast
  from moved_inv [OF inv1 pl lg1 pc mv] have "game_inv s'" .
  moreover have "do_move s (Some m) = Inr s'" using sh by (simp add: do_move_def Let_def)
  ultimately show ?thesis using pc mv by auto
qed

lemma victory_inv:
  assumes "game_inv s" and "player = 0 \<or> player = 1" and "victory s player = Inr (t, s')"
  shows "game_inv s' \<and> same_position s' s"
  using victory_cases [OF assms(1,2)] assms(1,3) by auto

lemma update_unfold:
  "update s player str =
     (case those (map py_int (split_space str)) of
        None \<Rightarrow> Inl ValueError
      | Some mv \<Rightarrow>
          if length mv \<noteq> 4 then Inl WrongMove
          else
            (case moves s player of
               Inl e \<Rightarrow> Inl e
             | Inr ms \<Rightarrow>
                 if ms = [] then
                   (if mv \<noteq> [-1, -1, -1, -1] then Inl WrongMove
                    else finish_move (s\<lparr>curplayer := player\<rparr>) player None)
                 else if decode_move mv \<notin> set ms then Inl WrongMove
                 else finish_move (s\<lparr>curplayer := player\<rparr>) player (Some (decode_move mv))))"
  by (simp add: update_def Let_def finish_move_def decode_move_def
      split: option.splits sum.splits)

lemma finish_move_ok:
  assumes inv: "game_inv s0" and pl: "player = 0 \<or> player = 1"
    and mo: "\<And>m. mo = Some m \<Longrightarrow> legal s0 player m"
  shows "\<exists>s1. do_move s0 mo = Inr s1 \<and> game_inv s1
           \<and> (victory s1 player = Inr (False, s1) \<and> finish_move s0 player mo = Inr (None, s1)
              \<or> (\<exists>w. (w = 0 \<or> w = 1) \<and> victory s1 player = Inr (True, s1\<lparr>winner := Some w\<rparr>)
                    \<and> finish_move s0 player mo
                        = Inr (Some (if w = 1 then 1 else - 1), s1\<lparr>winner := Some w\<rparr>)))"
proof -
  have "\<exists>s1. do_move s0 mo = Inr s1 \<and> game_inv s1"
  proof (cases mo)
    case None
    then show ?thesis using inv by (simp add: do_move_def Let_def)
  next
    case (Some m)
    then have "legal s0 player m" by (rule mo)
    from do_move_legal [OF inv pl this] Some show ?thesis by auto
  qed
  then obtain s1 where s1: "do_move s0 mo = Inr s1" "game_inv s1" by blast
  from victory_cases [OF s1(2) pl] consider
    (a) w where "w = 0 \<or> w = 1" "victory s1 player = Inr (True, s1\<lparr>winner := Some w\<rparr>)"
    | (b) "victory s1 player = Inr (False, s1)" by blast
  then show ?thesis
  proof cases
    case a
    then have "finish_move s0 player mo
                 = Inr (Some (if w = 1 then 1 else - 1), s1\<lparr>winner := Some w\<rparr>)"
      using s1(1) by (auto simp: finish_move_def)
    then show ?thesis using s1 a by blast
  next
    case b
    then have "finish_move s0 player mo = Inr (None, s1)"
      using s1(1) by (simp add: finish_move_def)
    then show ?thesis using s1 b by blast
  qed
qed

lemma update_inv:
  assumes inv: "game_inv s" and up: "update s player str = Inr (r, s')"
  shows "game_inv s'"
proof -
  let ?s0 = "s\<lparr>curplayer := player\<rparr>"
  have pl: "player = 0 \<or> player = 1"
  proof (rule ccontr)
    assume "\<not> (player = 0 \<or> player = 1)"
    then have "moves s player = Inl KeyError" by (simp add: moves_def pieces_get_def)
    then show False using up unfolding update_unfold by (simp split: option.splits if_splits)
  qed
  have inv0: "game_inv ?s0" using inv by simp
  from moves_legal [OF inv pl] obtain ms where ms: "moves s player = Inr ms"
    "\<forall>m \<in> set ms. legal s player m" by blast
  from up obtain mv where mv: "those (map py_int (split_space str)) = Some mv" "length mv = 4"
    unfolding update_unfold by (simp split: option.splits if_splits)
  define mo where "mo = (if ms = [] then None else Some (decode_move mv))"
  have fm: "finish_move ?s0 player mo = Inr (r, s')"
    using up unfolding update_unfold ms(1) mv mo_def by (simp split: if_splits)
  have "ms \<noteq> [] \<Longrightarrow> decode_move mv \<in> set ms"
    using up unfolding update_unfold ms(1) mv by (simp split: if_splits)
  with ms(2) have lg: "\<And>m. mo = Some m \<Longrightarrow> legal ?s0 player m"
    by (auto simp: mo_def split: if_splits)
  from finish_move_ok [OF inv0 pl lg] obtain s1 where
    "game_inv s1" "finish_move ?s0 player mo = Inr (None, s1)
       \<or> (\<exists>w. finish_move ?s0 player mo
                   = Inr (Some (if w = 1 then 1 else - 1), s1\<lparr>winner := Some w\<rparr>))"
    by blast
  with fm show ?thesis by auto
qed

lemma reachable_game_inv: "reachable s \<Longrightarrow> game_inv s"
proof (induction rule: reachable.induct)
  case start
  show ?case by (rule game_inv_init)
next
  case (played s player str r s')
  then show ?case using update_inv by blast
next
  case (passed s s')
  then show ?case by (auto simp: do_move_def Let_def)
qed

section \<open>Apply and undo\<close>

lemma dict_length_le_8:
  assumes "distinct (map fst d)" and "\<And>k v. map_of d k = Some v \<Longrightarrow> 0 \<le> k \<and> k \<le> (7::int)"
  shows "length d \<le> 8"
proof -
  have "set (map fst d) \<subseteq> {0..7}"
  proof
    fix k assume "k \<in> set (map fst d)"
    then obtain v where "(k, v) \<in> set d" by auto
    with assms(1) have "map_of d k = Some v" by simp
    from assms(2) [OF this] show "k \<in> {0..7}" by simp
  qed
  then have "card (set (map fst d)) \<le> card {0..7::int}" by (intro card_mono) auto
  moreover have "card (set (map fst d)) = length d"
    using assms(1) distinct_card by fastforce
  ultimately show ?thesis by simp
qed

lemma game_inv_consistent:
  assumes inv: "game_inv s"
  shows "views_consistent s"
proof -
  have ok: "board_ok (board s)" and va: "views_agree s" and pp: "pieces_placed s"
    and d: "distinct (map fst (pdict_of s 0))" "distinct (map fst (pdict_of s 1))"
    using inv by (auto simp: game_inv_def)
  have P: "\<And>pl pc x y. pl = 0 \<or> pl = 1 \<Longrightarrow> map_of (pdict_of s pl) pc = Some (x, y) \<Longrightarrow>
             in_range x y \<and> 0 \<le> pc \<and> pc \<le> 7"
    using pp unfolding pieces_placed_def pmap_def by blast
  have A: "\<And>x y pl pc. in_range x y \<Longrightarrow>
             (board_get (board s) x y = Inr (Some (pl, pc)))
               = ((pl = 0 \<or> pl = 1) \<and> map_of (pdict_of s pl) pc = Some (x, y))"
    using va ok unfolding views_agree_def pmap_def by (simp add: board_get_in)
  have c1: "\<forall>pl pc x y. (pl = 0 \<or> pl = 1) \<and> map_of (pdict_of s pl) pc = Some (x, y)
          \<longrightarrow> board_get (board s) x y = Inr (Some (pl, pc))"
    using P A by blast
  have c2: "\<forall>x y pl pc. 0 \<le> x \<and> x < MX \<and> 0 \<le> y \<and> y < MY
          \<longrightarrow> (board_get (board s) x y = Inr (Some (pl, pc)))
                = ((pl = 0 \<or> pl = 1) \<and> map_of (pdict_of s pl) pc = Some (x, y))"
    using A by (simp add: in_range_def MX_def MY_def)
  have c3: "\<forall>pl. pl = 0 \<or> pl = 1
          \<longrightarrow> length (pdict_of s pl) \<le> 8 \<and> distinct (map fst (pdict_of s pl))"
  proof (intro allI impI)
    fix pl :: int assume pl: "pl = 0 \<or> pl = 1"
    then have dd: "distinct (map fst (pdict_of s pl))" using d by auto
    have "\<And>k v. map_of (pdict_of s pl) k = Some v \<Longrightarrow> 0 \<le> k \<and> k \<le> 7"
      using P [OF pl] by (metis surj_pair)
    from dict_length_le_8 [OF dd this] dd
    show "length (pdict_of s pl) \<le> 8 \<and> distinct (map fst (pdict_of s pl))" by simp
  qed
  have c4: "\<forall>pl pc pl' pc' p. (pl = 0 \<or> pl = 1) \<and> (pl' = 0 \<or> pl' = 1)
            \<and> map_of (pdict_of s pl) pc = Some p \<and> map_of (pdict_of s pl') pc' = Some p
          \<longrightarrow> pl = pl' \<and> pc = pc'"
  proof (intro allI impI, elim conjE)
    fix pl pc pl' pc' :: int and p :: pos
    assume pl: "pl = 0 \<or> pl = 1" and pl': "pl' = 0 \<or> pl' = 1"
      and e: "map_of (pdict_of s pl) pc = Some p" and e': "map_of (pdict_of s pl') pc' = Some p"
    obtain x y where p: "p = (x, y)" by (cases p)
    have "board_get (board s) x y = Inr (Some (pl, pc))"
      "board_get (board s) x y = Inr (Some (pl', pc'))"
      using c1 pl pl' e e' unfolding p by blast+
    then show "pl = pl' \<and> pc = pc'" by simp
  qed
  show ?thesis unfolding views_consistent_def using c1 c2 c3 c4 by blast
qed

lemma affect_moved:
  assumes "game_inv s" and "player = 0 \<or> player = 1" and "legal s player m"
  shows "\<exists>s1 u. affect s m = Inr (s1, u) \<and> game_inv s1
            \<and> curplayer s1 = curplayer s \<and> winner s1 = winner s"
proof -
  from shift_piece_legal [OF assms] obtain s' pc where
    sh: "shift_piece s m = Inr (s', (player, pc), cell (board s) (fst (snd m)) (snd (snd m)))"
    and pc: "pmap s player pc = Some (fst m)" and mv: "moved s player pc m s'" by blast
  from moved_inv [OF assms pc mv] have "game_inv s'" .
  moreover have "curplayer s' = curplayer s" "winner s' = winner s"
    using mv by (simp_all add: moved_def Let_def)
  ultimately show ?thesis using sh by (simp add: affect_def)
qed

lemma search_after_affect:
  assumes "game_inv s1"
  shows "\<exists>r s2. (if player = 0 then min_alpha_beta s1 alpha beta depth
                  else max_alpha_beta s1 alpha beta depth) = Inr (r, s2)
            \<and> same_position s2 s1 \<and> game_inv s2"
  using search_restores(1,3) [of s1 alpha beta depth] assms
  by (auto simp: restored_def)

text \<open>
  What the undo does give back. On every state that satisfies the invariant (the start
  does, and \<open>update\<close>, a pass, \<open>victory\<close> and the search keep it:
  \<open>reachable_game_inv\<close>, \<open>victory_inv\<close>, \<open>search_restores\<close>), for every move \<open>moves\<close>
  returns for a player, the inline apply of the search succeeds and its inline undo gives
  back the board, the passivity counter and the contents of both dictionaries, read as
  maps from rank to position: both when the undo follows the apply directly (then the
  turn and the winner flag are back too) and when the search of the other side runs in
  between, at every window and depth. The order of the entries is not part of this.
\<close>

lemma apply_undo_same_maps:
  assumes "game_inv s" and "player = 0 \<or> player = 1"
    and "moves s player = Inr ms" and "m \<in> set ms"
  shows "\<exists>s1 u. affect s m = Inr (s1, u)
           \<and> (\<exists>s'. undo_everything s1 u = Inr s'
                 \<and> board s' = board s
                 \<and> map_of (pdict_of s' 0) = map_of (pdict_of s 0)
                 \<and> map_of (pdict_of s' 1) = map_of (pdict_of s 1)
                 \<and> peace_counter s' = peace_counter s
                 \<and> curplayer s' = curplayer s \<and> winner s' = winner s)
           \<and> (\<forall>alpha beta depth. \<exists>r s2 s'.
                 (if player = 0 then min_alpha_beta s1 alpha beta depth
                  else max_alpha_beta s1 alpha beta depth) = Inr (r, s2)
                 \<and> undo_everything s2 u = Inr s'
                 \<and> board s' = board s
                 \<and> map_of (pdict_of s' 0) = map_of (pdict_of s 0)
                 \<and> map_of (pdict_of s' 1) = map_of (pdict_of s 1)
                 \<and> peace_counter s' = peace_counter s)"
proof -
  from moves_legal [OF assms(1,2)] assms(3,4) have lg: "legal s player m" by auto
  from affect_moved [OF assms(1,2) lg] obtain s1 u where
    af: "affect s m = Inr (s1, u)" and inv1: "game_inv s1"
    and cw: "curplayer s1 = curplayer s" "winner s1 = winner s" by blast
  have direct: "\<exists>s'. undo_everything s1 u = Inr s'
                 \<and> board s' = board s
                 \<and> map_of (pdict_of s' 0) = map_of (pdict_of s 0)
                 \<and> map_of (pdict_of s' 1) = map_of (pdict_of s 1)
                 \<and> peace_counter s' = peace_counter s
                 \<and> curplayer s' = curplayer s \<and> winner s' = winner s"
    using undo_restores [OF assms(1,2) lg af same_position_refl inv1] cw
    by (auto simp: same_position_def pmap_def)
  have nested: "\<exists>r s2 s'.
                 (if player = 0 then min_alpha_beta s1 alpha beta depth
                  else max_alpha_beta s1 alpha beta depth) = Inr (r, s2)
                 \<and> undo_everything s2 u = Inr s'
                 \<and> board s' = board s
                 \<and> map_of (pdict_of s' 0) = map_of (pdict_of s 0)
                 \<and> map_of (pdict_of s' 1) = map_of (pdict_of s 1)
                 \<and> peace_counter s' = peace_counter s" for alpha beta depth
  proof -
    from search_after_affect [OF inv1, of player alpha beta depth] obtain r s2 where
      se: "(if player = 0 then min_alpha_beta s1 alpha beta depth
            else max_alpha_beta s1 alpha beta depth) = Inr (r, s2)"
      and sp: "same_position s2 s1" and inv2: "game_inv s2" by blast
    from undo_restores [OF assms(1,2) lg af sp inv2] obtain s' where
      "undo_everything s2 u = Inr s'" "same_position s' s" by blast
    then have "undo_everything s2 u = Inr s' \<and> board s' = board s
                 \<and> map_of (pdict_of s' 0) = map_of (pdict_of s 0)
                 \<and> map_of (pdict_of s' 1) = map_of (pdict_of s 1)
                 \<and> peace_counter s' = peace_counter s"
      by (simp add: same_position_def pmap_def)
    with se show ?thesis by blast
  qed
  from af direct nested show ?thesis by blast
qed

text \<open>
  C4. From a state that satisfies the invariant, for every move \<open>moves\<close> returns: the state
  after \<open>do_move\<close>, the state after the search's apply, the state the search of the other
  side leaves, and the state after the undo all keep the two views consistent
  (\<open>views_consistent\<close>) and satisfy the invariant again.
\<close>

theorem views_stay_consistent:
  assumes "game_inv s" and "player = 0 \<or> player = 1"
    and "moves s player = Inr ms" and "m \<in> set ms"
  shows "(\<exists>s'. do_move s (Some m) = Inr s' \<and> game_inv s' \<and> views_consistent s')
       \<and> (\<exists>s1 u. affect s m = Inr (s1, u) \<and> game_inv s1 \<and> views_consistent s1
             \<and> (\<exists>s3. undo_everything s1 u = Inr s3 \<and> game_inv s3 \<and> views_consistent s3)
             \<and> (\<forall>alpha beta depth. \<exists>r s2 s3.
                   (if player = 0 then min_alpha_beta s1 alpha beta depth
                    else max_alpha_beta s1 alpha beta depth) = Inr (r, s2)
                   \<and> game_inv s2 \<and> views_consistent s2
                   \<and> undo_everything s2 u = Inr s3 \<and> game_inv s3 \<and> views_consistent s3))"
proof -
  from moves_legal [OF assms(1,2)] assms(3,4) have lg: "legal s player m" by auto
  from do_move_legal [OF assms(1,2) lg]
  have real: "\<exists>s'. do_move s (Some m) = Inr s' \<and> game_inv s' \<and> views_consistent s'"
    using game_inv_consistent by blast
  from affect_moved [OF assms(1,2) lg] obtain s1 u where
    af: "affect s m = Inr (s1, u)" and inv1: "game_inv s1" by blast
  have direct: "\<exists>s3. undo_everything s1 u = Inr s3 \<and> game_inv s3 \<and> views_consistent s3"
    using undo_restores [OF assms(1,2) lg af same_position_refl inv1] game_inv_consistent
    by blast
  have nested: "\<exists>r s2 s3.
                   (if player = 0 then min_alpha_beta s1 alpha beta depth
                    else max_alpha_beta s1 alpha beta depth) = Inr (r, s2)
                   \<and> game_inv s2 \<and> views_consistent s2
                   \<and> undo_everything s2 u = Inr s3 \<and> game_inv s3 \<and> views_consistent s3"
    for alpha beta depth
  proof -
    from search_after_affect [OF inv1, of player alpha beta depth] obtain r s2 where
      se: "(if player = 0 then min_alpha_beta s1 alpha beta depth
            else max_alpha_beta s1 alpha beta depth) = Inr (r, s2)"
      and sp: "same_position s2 s1" and inv2: "game_inv s2" by blast
    from undo_restores [OF assms(1,2) lg af sp inv2] obtain s3 where
      "undo_everything s2 u = Inr s3" "game_inv s3" by blast
    with se inv2 game_inv_consistent show ?thesis by blast
  qed
  from real af inv1 game_inv_consistent [OF inv1] direct nested show ?thesis by blast
qed

lemma check_inv_capture: "check_inv (jungle_of capture_board)"
  by code_simp

text \<open>
  C1. Claimed: the inline apply followed by the inline undo restores the state exactly,
  both rank-to-position indexes included. The apply of a capture deletes the taken rank
  from its owner's dictionary and the undo assigns it again, so the rank comes back as
  the last key. On \<open>capture_board\<close>, for the move \<open>(1, 0), (2, 0)\<close> of \<open>moves\<close>, player 0's
  dog taking player 1's dog: after the undo the board, the counter and player 0's
  dictionary are as before, but player 1's dictionary holds the wolf before the dog
  where it held the dog before the wolf, and \<open>moves\<close> lists player 1's moves in another
  order. The search leaves such dictionaries behind: called twice in a row on this
  position it answers \<open>(0, 0), (0, 1)\<close> the first time and \<open>(1, 0), (1, 1)\<close> the second,
  and the first answer again once the dictionaries are put back in their order.
\<close>

theorem undo_reorders_index:
  "moves (jungle_of capture_board) 0 = Inr [((0, 0), 0, 1), ((1, 0), 1, 1), ((1, 0), 2, 0)]
   \<and> pdict_of (jungle_of capture_board) 0 = [(3, (0, 0)), (2, (1, 0))]
   \<and> pdict_of (jungle_of capture_board) 1 = [(2, (2, 0)), (3, (0, 2))]
   \<and> (case affect (jungle_of capture_board) ((1, 0), (2, 0)) of
         Inl e \<Rightarrow> False
       | Inr (s1, u) \<Rightarrow>
           (case undo_everything s1 u of
              Inl e \<Rightarrow> False
            | Inr s' \<Rightarrow>
                board s' = board (jungle_of capture_board)
                \<and> peace_counter s' = peace_counter (jungle_of capture_board)
                \<and> pdict_of s' 0 = [(3, (0, 0)), (2, (1, 0))]
                \<and> pdict_of s' 1 = [(3, (0, 2)), (2, (2, 0))]
                \<and> moves s' 1 \<noteq> moves (jungle_of capture_board) 1))
   \<and> max_alpha_beta (jungle_of capture_board) NegInf PosInf 0
         = Inr ((Fin 1, Some 0, Some 0, Some 0, Some 1), after_search)
   \<and> max_alpha_beta after_search NegInf PosInf 0
         = Inr ((Fin 1, Some 1, Some 0, Some 1, Some 1),
                after_search\<lparr>pieces := ([(3, 0, 0), (2, 1, 0)], [(3, 0, 2), (2, 2, 0)])\<rparr>)
   \<and> max_alpha_beta (after_search\<lparr>pieces := pieces (jungle_of capture_board)\<rparr>) NegInf PosInf 0
         = Inr ((Fin 1, Some 0, Some 0, Some 0, Some 1), after_search)"
  by code_simp

section \<open>The contract of update\<close>


text \<open>
  What \<open>int\<close> takes for a token: the separators U+001C to U+001F are not white space for
  it, U+0085 and U+00A0 are; underscores stand between digits only; a token of more than
  \<open>MAX_STR_DIGITS\<close> digits is refused.
\<close>

lemma int_white_space:
  "py_int [CHR 0x1C, CHR ''5''] = None \<and> py_int [CHR ''5'', CHR 0x1F] = None
   \<and> py_int [CHR 0xA0, CHR ''5''] = Some 5 \<and> py_int [CHR ''5'', CHR 0x85] = Some 5
   \<and> py_int [CHR 0x09, CHR ''-'', CHR ''1'', CHR ''_'', CHR ''2'', CHR 0x0D] = Some (- 12)
   \<and> py_int ''1__2'' = None \<and> py_int ''_1'' = None \<and> py_int ''1_'' = None
   \<and> py_int ''- 1'' = None \<and> py_int [] = None
   \<and> update init 0 (''0 6 0 '' @ [CHR 0x1C, CHR ''5'']) = Inl ValueError"
  by code_simp

lemma int_digit_bound:
  assumes "MAX_STR_DIGITS < count_digits s"
  shows "parse_literal s = None"
  using assms by (auto simp: parse_literal_def split: list.splits option.splits)



lemma moves_init_0:
  "moves init 0 =
     Inr [((0, 6), 0, 7), ((0, 6), 1, 6), ((0, 6), 0, 5), ((2, 6), 2, 7),
          ((2, 6), 3, 6), ((2, 6), 1, 6), ((4, 6), 4, 7), ((4, 6), 5, 6),
          ((4, 6), 3, 6), ((6, 6), 6, 7), ((6, 6), 5, 6), ((6, 6), 6, 5),
          ((1, 7), 1, 8), ((1, 7), 2, 7), ((1, 7), 0, 7), ((1, 7), 1, 6),
          ((5, 7), 5, 8), ((5, 7), 6, 7), ((5, 7), 4, 7), ((5, 7), 5, 6),
          ((0, 8), 1, 8), ((0, 8), 0, 7), ((6, 8), 5, 8), ((6, 8), 6, 7)]"
  by code_simp


theorem views_stay_consistent_witness:
  "(\<exists>s'. do_move init (Some ((0, 6), (0, 5))) = Inr s' \<and> views_consistent s')
   \<and> (\<exists>s1 u. affect init ((0, 6), (0, 5)) = Inr (s1, u) \<and> views_consistent s1
         \<and> (\<exists>s3. undo_everything s1 u = Inr s3 \<and> views_consistent s3))"
proof -
  have pl: "(0::int) = 0 \<or> (0::int) = 1" by simp
  have mem: "((0, 6), (0, 5)) \<in> set [((0, 6), 0, 7), ((0, 6), 1, 6), ((0, 6), 0, 5), ((2, 6), 2, 7),
          ((2, 6), 3, 6), ((2, 6), 1, 6), ((4, 6), 4, 7), ((4, 6), 5, 6),
          ((4, 6), 3, 6), ((6, 6), 6, 7), ((6, 6), 5, 6), ((6, 6), 6, 5),
          ((1, 7), 1, 8), ((1, 7), 2, 7), ((1, 7), 0, 7), ((1, 7), 1, 6),
          ((5, 7), 5, 8), ((5, 7), 6, 7), ((5, 7), 4, 7), ((5, 7), 5, 6),
          ((0, 8), 1, 8), ((0, 8), 0, 7), ((6, 8), 5, 8), ((6, 8), 6, 7 :: int)]" by simp
  from views_stay_consistent [OF game_inv_init pl moves_init_0 mem]
  show ?thesis by blast
qed

end
